theory Spec2Isabelle
  imports Main "HOL-Library.Word"
begin

section \<open>C characters, faults and byte sources\<close>

text \<open>
  The parser of \<^verbatim>\<open>load.c\<close> works on values of the C type \<^verbatim>\<open>char\<close>, which the code
  takes to be signed (it tests \<^verbatim>\<open>c < 0\<close> for the lead byte of a multi-byte sequence and
  compares a \<^verbatim>\<open>char\<close> with \<^verbatim>\<open>EOF\<close>). A byte is a HOL \<^typ>\<open>char\<close>; \<open>schar\<close> is its value as a
  signed char and \<open>to_char\<close> the conversion of an \<^verbatim>\<open>int\<close> to \<^verbatim>\<open>char\<close>.
\<close>

definition schar :: "char \<Rightarrow> int" where
  "schar c = (if of_char c < (128::int) then of_char c else of_char c - 256)"

definition to_char :: "int \<Rightarrow> char" where
  "to_char i = char_of i"

definition EOF :: int where
  "EOF = - 1"

text \<open>
  What a run of the C program can do besides returning: fail an \<^verbatim>\<open>assert\<close>
  (when the file is compiled without \<^verbatim>\<open>NDEBUG\<close>), read outside an array, read
  a byte that was never written, or pass a null pointer to \<^verbatim>\<open>strdup\<close>, which are undefined
  behaviour. \<open>OutOfFuel\<close> belongs to the model only: the recursive
  descent of the parser is bounded by a fuel argument.
\<close>

datatype fault = AssertFail | OutOfBounds | Uninitialised | NullPointer | OutOfFuel

text \<open>
  \<^verbatim>\<open>assert(e)\<close>: nothing under \<^verbatim>\<open>NDEBUG\<close>, otherwise the program aborts when \<open>e\<close> is false.
\<close>

definition c_assert :: "bool \<Rightarrow> bool \<Rightarrow> fault + unit" where
  "c_assert nd e = (if nd \<or> e then Inr () else Inl AssertFail)"

text \<open>
  The two byte sources of the file. \<^verbatim>\<open>json_loadf\<close> reads a \<^verbatim>\<open>FILE\<close> with \<^verbatim>\<open>fgetc\<close> and
  \<^verbatim>\<open>feof\<close>: the bytes not yet read and the end-of-file indicator, which \<^verbatim>\<open>fgetc\<close> sets
  when it is called with nothing left. \<^verbatim>\<open>json_loads\<close> reads a \<^verbatim>\<open>string_data_t\<close>: the
  array the caller's pointer points into (terminator included, with whatever the array
  holds behind it) and a position. A source value stands for the triple
  \<^verbatim>\<open>get\<close>, \<^verbatim>\<open>eof\<close>, \<^verbatim>\<open>data\<close> of \<^verbatim>\<open>stream_t\<close>; \<open>src_get\<close> and \<open>src_eof\<close> are the calls through
  the two function pointers.
\<close>

datatype source =
    File (unread: "char list") (eof_indicator: bool)
  | StringData (data: "char list") (pos: nat)

definition fgetc :: "char list \<Rightarrow> bool \<Rightarrow> int \<times> source" where
  "fgetc bs e = (case bs of [] \<Rightarrow> (EOF, File [] True)
                 | b # bs' \<Rightarrow> (of_char b, File bs' e))"

definition feof :: "char list \<Rightarrow> bool \<Rightarrow> bool" where
  "feof bs e = e"

definition string_get :: "char list \<Rightarrow> nat \<Rightarrow> fault + (int \<times> source)" where
  "string_get d p =
     (if p < length d
      then (let c = d ! p in
            Inr (if c = CHR 0x00 then EOF else schar c, StringData d (p + 1)))
      else Inl OutOfBounds)"

definition string_eof :: "char list \<Rightarrow> nat \<Rightarrow> fault + bool" where
  "string_eof d p = (if p < length d then Inr (d ! p = CHR 0x00) else Inl OutOfBounds)"

fun src_get :: "source \<Rightarrow> fault + (int \<times> source)" where
  "src_get (File bs e) = Inr (fgetc bs e)"
| "src_get (StringData d p) = string_get d p"

fun src_eof :: "source \<Rightarrow> fault + bool" where
  "src_eof (File bs e) = Inr (feof bs e)"
| "src_eof (StringData d p) = string_eof d p"

fun src_rem :: "source \<Rightarrow> nat" where
  "src_rem (File bs e) = length bs"
| "src_rem (StringData d p) = length d - p"

section \<open>UTF-8 checks\<close>

text \<open>
  Modelled from the spec: \<^verbatim>\<open>utf8_check_first\<close> and \<^verbatim>\<open>utf8_check_full\<close> are declared in
  \<^verbatim>\<open>utf.h\<close> and defined outside \<^verbatim>\<open>load.c\<close>. The first gives the length of the sequence
  that a lead byte announces (0 when the byte cannot start one), the second accepts a
  whole sequence when every other byte is a continuation byte and the code point is
  neither overlong, nor a surrogate, nor above U+10FFFF.
\<close>

definition utf8_check_first :: "char \<Rightarrow> nat" where
  "utf8_check_first c =
     (let u = (of_char c :: nat) in
      if u < 0x80 then 1
      else if u \<le> 0xBF then 0
      else if u = 0xC0 \<or> u = 0xC1 then 0
      else if u \<le> 0xDF then 2
      else if u \<le> 0xEF then 3
      else if u \<le> 0xF4 then 4
      else 0)"

fun utf8_cont :: "nat \<Rightarrow> char list \<Rightarrow> nat option" where
  "utf8_cont v [] = Some v"
| "utf8_cont v (c # cs) =
     (let u = (of_char c :: nat) in
      if u < 0x80 \<or> 0xBF < u then None else utf8_cont (v * 64 + u mod 64) cs)"

definition utf8_check_full :: "char list \<Rightarrow> nat \<Rightarrow> bool" where
  "utf8_check_full buf sz =
     (let u = (of_char (hd buf) :: nat) in
      if sz \<noteq> 2 \<and> sz \<noteq> 3 \<and> sz \<noteq> 4 then False
      else
        (case utf8_cont (if sz = 2 then u mod 32 else if sz = 3 then u mod 16 else u mod 8)
                (take (sz - 1) (tl buf)) of
           None \<Rightarrow> False
         | Some v \<Rightarrow>
             \<not> (0x10FFFF < v) \<and> \<not> (0xD800 \<le> v \<and> v \<le> 0xDFFF) \<and>
             \<not> ((sz = 2 \<and> v < 0x80) \<or> (sz = 3 \<and> v < 0x800) \<or> (sz = 4 \<and> v < 0x10000))))"

section \<open>The byte stream\<close>

text \<open>
  \<^verbatim>\<open>stream_t\<close>: the source, the five-byte look-ahead buffer and the cursor into it.
  \<open>ndebug\<close> is not a field of the C struct: it records whether the file was compiled
  with \<^verbatim>\<open>NDEBUG\<close>, that is, whether its \<^verbatim>\<open>assert\<close>s are compiled out.
\<close>

text \<open>
  The buffer has five bytes in every state that the program builds; no index that the
  program writes lies outside them.
\<close>

record stream_t =
  src :: source
  buffer :: "char list"
  buffer_pos :: int
  ndebug :: bool

definition buf_read :: "char list \<Rightarrow> int \<Rightarrow> fault + char" where
  "buf_read b i = (if 0 \<le> i \<and> i < int (length b) then Inr (b ! nat i) else Inl OutOfBounds)"

definition stream_init :: "stream_t \<Rightarrow> source \<Rightarrow> stream_t" where
  "stream_init stream d = stream\<lparr>src := d, buffer := (buffer stream)[0 := CHR 0x00], buffer_pos := 0\<rparr>"

text \<open>The last statement of \<^verbatim>\<open>stream_get\<close>: \<^verbatim>\<open>return (char)stream->buffer[stream->buffer_pos++]\<close>.\<close>

definition stream_ret :: "stream_t \<Rightarrow> fault + (char \<times> stream_t)" where
  "stream_ret s =
     (case buf_read (buffer s) (buffer_pos s) of
        Inl f \<Rightarrow> Inl f
      | Inr c \<Rightarrow> Inr (c, s\<lparr>buffer_pos := buffer_pos s + 1\<rparr>))"

text \<open>The loop \<^verbatim>\<open>for(i = 1; i < count; i++) stream->buffer[i] = stream->get(stream->data)\<close>,
  with \<open>n = count - i\<close> rounds to go.\<close>

fun stream_fill :: "nat \<Rightarrow> nat \<Rightarrow> stream_t \<Rightarrow> fault + stream_t" where
  "stream_fill i 0 s = Inr s"
| "stream_fill i (Suc n) s =
     (case src_get (src s) of
        Inl f \<Rightarrow> Inl f
      | Inr (b, d') \<Rightarrow> stream_fill (i + 1) n (s\<lparr>src := d', buffer := (buffer s)[i := to_char b]\<rparr>))"

definition stream_get :: "stream_t \<Rightarrow> fault + (char \<times> stream_t)" where
  "stream_get s =
     (case buf_read (buffer s) (buffer_pos s) of
        Inl f \<Rightarrow> Inl f
      | Inr b0 \<Rightarrow>
          if b0 \<noteq> CHR 0x00 then stream_ret s
          else
            (case src_get (src s) of
               Inl f \<Rightarrow> Inl f
             | Inr (b, d') \<Rightarrow>
                 (let s1 = s\<lparr>src := d', buffer := (buffer s)[0 := to_char b], buffer_pos := 0\<rparr>;
                      c = to_char b
                  in case (if schar c = EOF then src_eof d' else Inr False) of
                       Inl f \<Rightarrow> Inl f
                     | Inr at_end \<Rightarrow>
                         if at_end then Inr (to_char EOF, s1)
                         else if schar c < 0 then
                           (let count = utf8_check_first c in
                            if count = 0 then Inr (CHR 0x00, s1)
                            else
                              (case c_assert (ndebug s) (2 \<le> count) of
                                 Inl f \<Rightarrow> Inl f
                               | Inr _ \<Rightarrow>
                                   (case stream_fill 1 (count - 1) s1 of
                                      Inl f \<Rightarrow> Inl f
                                    | Inr s2 \<Rightarrow>
                                        if \<not> utf8_check_full (buffer s2) count then Inr (CHR 0x00, s2)
                                        else stream_ret (s2\<lparr>buffer := (buffer s2)[count := CHR 0x00]\<rparr>))))
                         else stream_ret (s1\<lparr>buffer := (buffer s1)[1 := CHR 0x00]\<rparr>))))"

text \<open>
  \<^verbatim>\<open>stream_unget\<close>. The second assertion compares the buffered \<^verbatim>\<open>char\<close> with
  \<^verbatim>\<open>(unsigned char)c\<close>, both promoted to \<^verbatim>\<open>int\<close>. Under \<^verbatim>\<open>NDEBUG\<close> the cursor is
  decremented whatever its value; without it the buffer is read for the comparison.
\<close>

definition stream_unget :: "stream_t \<Rightarrow> char \<Rightarrow> fault + stream_t" where
  "stream_unget s c =
     (case c_assert (ndebug s) (0 < buffer_pos s) of
        Inl f \<Rightarrow> Inl f
      | Inr _ \<Rightarrow>
          (let s1 = s\<lparr>buffer_pos := buffer_pos s - 1\<rparr> in
           if ndebug s then Inr s1
           else
             (case buf_read (buffer s1) (buffer_pos s1) of
                Inl f \<Rightarrow> Inl f
              | Inr b \<Rightarrow>
                  (case c_assert False (schar b = of_char c) of
                     Inl f \<Rightarrow> Inl f
                   | Inr _ \<Rightarrow> Inr s1))))"

section \<open>The lexer state\<close>

definition TOKEN_INVALID :: int where "TOKEN_INVALID = - 1"
definition TOKEN_EOF :: int where "TOKEN_EOF = 0"
definition TOKEN_STRING :: int where "TOKEN_STRING = 256"
definition TOKEN_INTEGER :: int where "TOKEN_INTEGER = 257"
definition TOKEN_REAL :: int where "TOKEN_REAL = 258"
definition TOKEN_TRUE :: int where "TOKEN_TRUE = 259"
definition TOKEN_FALSE :: int where "TOKEN_FALSE = 260"
definition TOKEN_NULL :: int where "TOKEN_NULL = 261"

text \<open>
  The union \<^verbatim>\<open>value\<close> of \<^verbatim>\<open>lex_t\<close>. \<open>VString None\<close> is the null pointer. The member
  \<^verbatim>\<open>integer\<close> is a C \<^verbatim>\<open>int\<close>, 32 bits wide. A \<^verbatim>\<open>double\<close> is kept as the text that
  \<^verbatim>\<open>strtod\<close> converted, floating point is not evaluated. \<open>VNone\<close> is the union before
  anything was stored in it.
\<close>

datatype c_double = Strtod "char list"

datatype lex_value = VNone | VString "char list option" | VInteger "32 word" | VReal c_double

text \<open>
  \<^verbatim>\<open>lex_t\<close>. Modelled from the spec: \<^verbatim>\<open>strbuffer_t\<close> is defined outside \<^verbatim>\<open>load.c\<close>; the
  spec calls it a growable raw-text accumulator, here the list of the bytes appended
  so far. \<^verbatim>\<open>strbuffer_value\<close> gives a C string, which ends at the first zero byte
  (\<open>c_str\<close>), and \<^verbatim>\<open>strbuffer_pop\<close> removes and returns the last byte.
\<close>

record lex_t =
  stream :: stream_t
  saved_text :: "char list"
  token :: int
  line :: int
  column :: int
  val :: lex_value

definition c_str :: "char list \<Rightarrow> char list" where
  "c_str bs = takeWhile (\<lambda>b. b \<noteq> CHR 0x00) bs"

definition strbuffer_pop :: "char list \<Rightarrow> char \<times> char list" where
  "strbuffer_pop bs = (if bs = [] then (CHR 0x00, []) else (last bs, butlast bs))"

definition lex_get :: "lex_t \<Rightarrow> fault + (char \<times> lex_t)" where
  "lex_get lx =
     (case stream_get (stream lx) of
        Inl f \<Rightarrow> Inl f
      | Inr (c, s) \<Rightarrow> Inr (c, lx\<lparr>stream := s\<rparr>))"

definition lex_eof :: "lex_t \<Rightarrow> fault + bool" where
  "lex_eof lx = src_eof (src (stream lx))"

definition lex_save :: "lex_t \<Rightarrow> char \<Rightarrow> lex_t" where
  "lex_save lx c = lx\<lparr>saved_text := saved_text lx @ [c]\<rparr>"

definition lex_get_save :: "lex_t \<Rightarrow> fault + (char \<times> lex_t)" where
  "lex_get_save lx =
     (case stream_get (stream lx) of
        Inl f \<Rightarrow> Inl f
      | Inr (c, s) \<Rightarrow> Inr (c, lex_save (lx\<lparr>stream := s\<rparr>) c))"

definition lex_unget_unsave :: "lex_t \<Rightarrow> char \<Rightarrow> fault + lex_t" where
  "lex_unget_unsave lx c =
     (case stream_unget (stream lx) c of
        Inl f \<Rightarrow> Inl f
      | Inr s \<Rightarrow>
          (case strbuffer_pop (saved_text lx) of
             (d, t) \<Rightarrow>
               (case c_assert (ndebug s) (c = d) of
                  Inl f \<Rightarrow> Inl f
                | Inr _ \<Rightarrow> Inr (lx\<lparr>stream := s, saved_text := t\<rparr>))))"

text \<open>The tests of \<^verbatim>\<open><ctype.h>\<close> in the C locale, on the value of a \<^verbatim>\<open>char\<close>.\<close>

definition in_range :: "char \<Rightarrow> char \<Rightarrow> char \<Rightarrow> bool" where
  "in_range lo hi c = ((of_char lo :: nat) \<le> of_char c \<and> (of_char c :: nat) \<le> of_char hi)"

definition isdigit :: "char \<Rightarrow> bool" where
  "isdigit c = in_range CHR ''0'' CHR ''9'' c"

definition isupper :: "char \<Rightarrow> bool" where
  "isupper c = in_range CHR ''A'' CHR ''Z'' c"

definition islower :: "char \<Rightarrow> bool" where
  "islower c = in_range CHR ''a'' CHR ''z'' c"

definition isxdigit :: "char \<Rightarrow> bool" where
  "isxdigit c = (isdigit c \<or> in_range CHR ''a'' CHR ''f'' c \<or> in_range CHR ''A'' CHR ''F'' c)"

definition isspace :: "char \<Rightarrow> bool" where
  "isspace c = (c = CHR '' '' \<or> in_range CHR 0x09 CHR 0x0D c)"

section \<open>Every read makes progress\<close>

text \<open>
  The loops of the lexer end because \<^verbatim>\<open>stream_get\<close> either uses up a byte of the source
  or a byte of the buffer, or returns \<^verbatim>\<open>EOF\<close> at the end of the source.
\<close>

definition stream_rel :: "(stream_t \<times> stream_t) set" where
  "stream_rel = inv_image (less_than <*lex*> less_than)
     (\<lambda>s. (src_rem (src s), nat (int (length (buffer s)) - buffer_pos s)))"

lemma to_char_EOF: "to_char EOF = CHR 0xFF"
  unfolding to_char_def EOF_def by code_simp

lemma to_char_of_char: "to_char (of_char c) = c" by (simp add: to_char_def)

lemma to_char_schar: "to_char (schar c) = c"
proof -
  have "char_of (of_char c - (256::int)) = char_of (of_char c :: int)"
    by (simp only: char_of_quasi_inj) simp
  then show ?thesis by (simp add: to_char_def schar_def)
qed

lemma schar_FF: "schar (CHR 0xFF) = - 1" by (simp add: schar_def)

lemma schar_to_char_EOF: "schar (to_char EOF) = EOF"
  unfolding to_char_EOF by (simp add: schar_FF EOF_def)

lemma src_get_rem: "src_get d = Inr (b, d') \<Longrightarrow> src_rem d' \<le> src_rem d"
  by (cases d) (auto simp: fgetc_def string_get_def Let_def split: list.splits if_splits)

lemma src_get_rem_strict:
  "src_get d = Inr (b, d') \<Longrightarrow> src_rem d' < src_rem d \<or> (b = EOF \<and> src_eof d' = Inr True)"
  by (cases d) (auto simp: fgetc_def string_get_def feof_def Let_def split: list.splits if_splits)

lemma stream_fill_props:
  "stream_fill i n s = Inr s' \<Longrightarrow>
     src_rem (src s') \<le> src_rem (src s) \<and> length (buffer s') = length (buffer s) \<and> buffer_pos s' = buffer_pos s"
proof (induction n arbitrary: i s)
  case 0
  then show ?case by simp
next
  case (Suc n)
  then show ?case
    by (auto split: sum.splits prod.splits dest!: src_get_rem) fastforce+
qed


lemma stream_ret_rel:
  "stream_ret s = Inr (c, s') \<Longrightarrow> (s', s) \<in> stream_rel"
  by (auto simp: stream_ret_def stream_rel_def buf_read_def split: sum.splits if_splits)

lemma stream_ret_src:
  "stream_ret s = Inr (c, s') \<Longrightarrow> src s' = src s"
  by (auto simp: stream_ret_def split: sum.splits)

lemma stream_rel_src: "src_rem (src s') < src_rem (src s) \<Longrightarrow> (s', s) \<in> stream_rel"
  by (simp add: stream_rel_def)

lemma stream_get_rel:
  assumes "stream_get s = Inr (c, s')"
  shows "(s', s) \<in> stream_rel \<or> (c = CHR 0xFF \<and> src_eof (src s') = Inr True)"
proof -
  from assms obtain b0 where b0: "buf_read (buffer s) (buffer_pos s) = Inr b0"
    by (auto simp: stream_get_def split: sum.splits)
  show ?thesis
  proof (cases "b0 = CHR 0x00")
    case False
    with assms b0 have "stream_ret s = Inr (c, s')" by (simp add: stream_get_def)
    then show ?thesis by (simp add: stream_ret_rel)
  next
    case True
    with assms b0 obtain b d' where g: "src_get (src s) = Inr (b, d')"
      by (auto simp: stream_get_def split: sum.splits)
    define s1 where "s1 = s\<lparr>src := d', buffer := (buffer s)[0 := to_char b], buffer_pos := 0\<rparr>"
    from assms b0 True g obtain at_end where
      e: "(if schar (to_char b) = EOF then src_eof d' else Inr False) = Inr at_end"
      by (auto simp: stream_get_def Let_def split: sum.splits)
    show ?thesis
    proof (cases at_end)
      case True
      with assms b0 \<open>b0 = CHR 0x00\<close> g e have "c = to_char EOF" "s' = s1"
        by (auto simp: stream_get_def Let_def s1_def split: sum.splits)
      moreover from e True have "src_eof d' = Inr True" by (auto split: if_splits)
      ultimately show ?thesis by (simp add: to_char_EOF s1_def)
    next
      case False
      have strict: "src_rem d' < src_rem (src s)"
      proof -
        from src_get_rem_strict [OF g] show ?thesis
        proof
          assume "b = EOF \<and> src_eof d' = Inr True"
          with e False show ?thesis by (simp add: schar_to_char_EOF)
        qed
      qed
      have "src_rem (src s') \<le> src_rem d'"
        using assms b0 \<open>b0 = CHR 0x00\<close> g e False
        by (auto simp: stream_get_def Let_def split: sum.splits if_splits
              dest!: stream_ret_src stream_fill_props)
      with strict show ?thesis by (simp add: stream_rel_src)
    qed
  qed
qed


definition lex_rel :: "(lex_t \<times> lex_t) set" where
  "lex_rel = inv_image stream_rel stream"

lemma wf_lex_rel: "wf lex_rel"
  unfolding lex_rel_def stream_rel_def by (intro wf_inv_image wf_lex_prod wf_less_than)

lemma lex_get_save_rel:
  "lex_get_save lx = Inr (c, lx') \<Longrightarrow>
     (lx', lx) \<in> lex_rel \<or> (c = CHR 0xFF \<and> lex_eof lx' = Inr True)"
  by (auto simp: lex_get_save_def lex_save_def lex_rel_def lex_eof_def split: sum.splits
        dest: stream_get_rel)

lemma lex_get_rel:
  "lex_get lx = Inr (c, lx') \<Longrightarrow>
     (lx', lx) \<in> lex_rel \<or> (c = CHR 0xFF \<and> lex_eof lx' = Inr True)"
  by (auto simp: lex_get_def lex_rel_def lex_eof_def split: sum.splits dest: stream_get_rel)

lemma isdigit_not_FF: "isdigit c \<Longrightarrow> c \<noteq> CHR 0xFF"
  by (auto simp: isdigit_def in_range_def)

section \<open>Numbers\<close>

text \<open>
  The loop \<^verbatim>\<open>c = lex_get_save(lex); while(isdigit(c)) c = lex_get_save(lex);\<close>, which
  \<^verbatim>\<open>lex_scan_number\<close> runs three times. It returns the first byte that is not a digit,
  already appended to the saved text.
\<close>

function lex_digits :: "lex_t \<Rightarrow> fault + (char \<times> lex_t)" where
  "lex_digits lx =
     (case lex_get_save lx of
        Inl f \<Rightarrow> Inl f
      | Inr (c, lx') \<Rightarrow> if isdigit c then lex_digits lx' else Inr (c, lx'))"
  by pat_completeness auto
termination
  by (relation lex_rel) (auto simp: wf_lex_rel dest: isdigit_not_FF lex_get_save_rel)

declare lex_digits.simps [simp del]

text \<open>
  \<^verbatim>\<open>strtol(s, &end, 10)\<close> and \<^verbatim>\<open>strtod(s, &end)\<close> of the C library, in the C locale and
  with a 64-bit \<^verbatim>\<open>long\<close>: white space, a sign, digits. Each gives its value and how many
  bytes it converted, 0 when there is no digit. \<^verbatim>\<open>strtol\<close> clamps to the range of
  \<^verbatim>\<open>long\<close>. Of \<^verbatim>\<open>strtod\<close> only the decimal form is modelled: every text the lexer passes
  starts with a digit or a minus sign, and a hexadecimal, \<^verbatim>\<open>inf\<close> or \<^verbatim>\<open>nan\<close> form never
  arises there.
\<close>

definition digit_val :: "char \<Rightarrow> int" where
  "digit_val c = of_char c - 48"

fun dec_val :: "int \<Rightarrow> char list \<Rightarrow> int" where
  "dec_val acc [] = acc"
| "dec_val acc (c # cs) = dec_val (acc * 10 + digit_val c) cs"

definition LONG_MAX :: int where "LONG_MAX = 2 ^ 63 - 1"
definition LONG_MIN :: int where "LONG_MIN = - (2 ^ 63)"

definition skip_sign :: "char list \<Rightarrow> bool \<times> char list" where
  "skip_sign s =
     (case s of
        [] \<Rightarrow> (False, [])
      | c # t \<Rightarrow> if c = CHR ''-'' then (True, t) else if c = CHR ''+'' then (False, t) else (False, s))"

definition strtol :: "char list \<Rightarrow> int \<times> nat" where
  "strtol s =
     (let r = dropWhile isspace s;
          (neg, r1) = skip_sign r;
          ds = takeWhile isdigit r1;
          v = (if neg then - dec_val 0 ds else dec_val 0 ds)
      in if ds = [] then (0, 0)
         else (max LONG_MIN (min LONG_MAX v), length s - length r1 + length ds))"

definition fraction_digits :: "char list \<Rightarrow> char list \<times> char list" where
  "fraction_digits r =
     (case r of
        [] \<Rightarrow> ([], [])
      | c # t \<Rightarrow> if c = CHR ''.'' then (takeWhile isdigit t, dropWhile isdigit t) else ([], r))"

definition exponent_length :: "char list \<Rightarrow> nat" where
  "exponent_length r =
     (case r of
        [] \<Rightarrow> 0
      | c # t \<Rightarrow>
          if c = CHR ''e'' \<or> c = CHR ''E''
          then (let (sg, t1) = skip_sign t; d3 = takeWhile isdigit t1
                in if d3 = [] then 0 else 1 + (length t - length t1) + length d3)
          else 0)"

definition strtod_end :: "char list \<Rightarrow> nat" where
  "strtod_end s =
     (let r = dropWhile isspace s;
          (neg, r1) = skip_sign r;
          d1 = takeWhile isdigit r1;
          (d2, r3) = fraction_digits (dropWhile isdigit r1)
      in if d1 = [] \<and> d2 = [] then 0
         else length s - length r3 + exponent_length r3)"

definition strtod :: "char list \<Rightarrow> c_double \<times> nat" where
  "strtod s = (Strtod (take (strtod_end s) s), strtod_end s)"

text \<open>
  \<^verbatim>\<open>lex_scan_number\<close>, lines 312 to 321 and 323 to 336: the fraction and the exponent.
  \<open>Inl lx\<close> is \<^verbatim>\<open>goto out\<close> in the state \<open>lx\<close>, \<open>Inr (c, lx)\<close> goes on with the byte \<open>c\<close>.
\<close>

definition lex_scan_fraction :: "lex_t \<Rightarrow> char \<Rightarrow> fault + (lex_t + char \<times> lex_t)" where
  "lex_scan_fraction lx c =
     (if c = CHR ''.'' then
        (case lex_get lx of
           Inl f \<Rightarrow> Inl f
         | Inr (c1, lx1) \<Rightarrow>
             if \<not> isdigit c1 then Inr (Inl lx1)
             else
               (case lex_digits (lex_save lx1 c1) of
                  Inl f \<Rightarrow> Inl f
                | Inr r \<Rightarrow> Inr (Inr r)))
      else Inr (Inr (c, lx)))"

definition lex_scan_exponent :: "lex_t \<Rightarrow> char \<Rightarrow> fault + (lex_t + char \<times> lex_t)" where
  "lex_scan_exponent lx c =
     (if c = CHR ''E'' \<or> c = CHR ''e'' then
        (case lex_get_save lx of
           Inl f \<Rightarrow> Inl f
         | Inr (c1, lx1) \<Rightarrow>
             (case (if c1 = CHR ''+'' \<or> c1 = CHR ''-'' then lex_get_save lx1 else Inr (c1, lx1)) of
                Inl f \<Rightarrow> Inl f
              | Inr (c2, lx2) \<Rightarrow>
                  if \<not> isdigit c2 then
                    (case lex_unget_unsave lx2 c2 of
                       Inl f \<Rightarrow> Inl f
                     | Inr lx3 \<Rightarrow> Inr (Inl lx3))
                  else
                    (case lex_digits lx2 of
                       Inl f \<Rightarrow> Inl f
                     | Inr r \<Rightarrow> Inr (Inr r))))
      else Inr (Inr (c, lx)))"

text \<open>Lines 285 to 299: the sign and the integer part.\<close>

definition lex_scan_integer :: "lex_t \<Rightarrow> char \<Rightarrow> fault + (lex_t + char \<times> lex_t)" where
  "lex_scan_integer lx c =
     (case (if c = CHR ''-'' then lex_get_save lx else Inr (c, lx)) of
        Inl f \<Rightarrow> Inl f
      | Inr (c1, lx1) \<Rightarrow>
          if c1 = CHR ''0'' then
            (case lex_get_save lx1 of
               Inl f \<Rightarrow> Inl f
             | Inr (c2, lx2) \<Rightarrow>
                 if isdigit c2 then
                   (case lex_unget_unsave lx2 c2 of
                      Inl f \<Rightarrow> Inl f
                    | Inr lx3 \<Rightarrow> Inr (Inl lx3))
                 else Inr (Inr (c2, lx2)))
          else
            (case lex_digits lx1 of
               Inl f \<Rightarrow> Inl f
             | Inr r \<Rightarrow> Inr (Inr r)))"

definition lex_scan_number :: "lex_t \<Rightarrow> char \<Rightarrow> fault + lex_t" where
  "lex_scan_number lx c =
     (case lex_scan_integer (lx\<lparr>token := TOKEN_INVALID\<rparr>) c of
        Inl f \<Rightarrow> Inl f
      | Inr (Inl lxo) \<Rightarrow> Inr lxo
      | Inr (Inr (c3, lx3)) \<Rightarrow>
          if c3 \<noteq> CHR ''.'' \<and> c3 \<noteq> CHR ''E'' \<and> c3 \<noteq> CHR ''e'' then
            (case lex_unget_unsave lx3 c3 of
               Inl f \<Rightarrow> Inl f
             | Inr lx4 \<Rightarrow>
                 (case strtol (c_str (saved_text lx4)) of
                    (v, e) \<Rightarrow>
                      (case c_assert (ndebug (stream lx4)) (e = length (saved_text lx4)) of
                         Inl f \<Rightarrow> Inl f
                       | Inr _ \<Rightarrow> Inr (lx4\<lparr>token := TOKEN_INTEGER, val := VInteger (word_of_int v)\<rparr>))))
          else
            (case lex_scan_fraction lx3 c3 of
               Inl f \<Rightarrow> Inl f
             | Inr (Inl lxo) \<Rightarrow> Inr lxo
             | Inr (Inr (c4, lx4)) \<Rightarrow>
                 (case lex_scan_exponent lx4 c4 of
                    Inl f \<Rightarrow> Inl f
                  | Inr (Inl lxo) \<Rightarrow> Inr lxo
                  | Inr (Inr (c5, lx5)) \<Rightarrow>
                      (case lex_unget_unsave lx5 c5 of
                         Inl f \<Rightarrow> Inl f
                       | Inr lx6 \<Rightarrow>
                           (case strtod (c_str (saved_text lx6)) of
                              (v, e) \<Rightarrow>
                                (case c_assert (ndebug (stream lx6)) (e = length (saved_text lx6)) of
                                   Inl f \<Rightarrow> Inl f
                                 | Inr _ \<Rightarrow> Inr (lx6\<lparr>token := TOKEN_REAL, val := VReal v\<rparr>)))))))"

section \<open>The allocator\<close>

text \<open>
  \<^verbatim>\<open>malloc\<close>, \<^verbatim>\<open>strdup\<close> and the constructors of the value model can fail. The heap of the
  model holds the outcomes of the allocations to come (\<open>False\<close> is a failure, and every
  allocation after the end of the list succeeds), the number of live blocks that
  \<^verbatim>\<open>malloc\<close> and \<^verbatim>\<open>strdup\<close> returned, and the number of live nodes of the value model.
\<close>

record heap =
  outcomes :: "bool list"
  blocks :: nat
  nodes :: nat

definition alloc :: "heap \<Rightarrow> bool \<times> heap" where
  "alloc h = (case outcomes h of [] \<Rightarrow> (True, h) | b # bs \<Rightarrow> (b, h\<lparr>outcomes := bs\<rparr>))"

definition malloc :: "heap \<Rightarrow> bool \<times> heap" where
  "malloc h = (case alloc h of (ok, h1) \<Rightarrow> if ok then (True, h1\<lparr>blocks := blocks h1 + 1\<rparr>) else (False, h1))"

definition free :: "heap \<Rightarrow> char list option \<Rightarrow> heap" where
  "free h p = (case p of None \<Rightarrow> h | Some _ \<Rightarrow> h\<lparr>blocks := blocks h - 1\<rparr>)"

section \<open>Strings\<close>

lemma isxdigit_not_FF: "isxdigit c \<Longrightarrow> c \<noteq> CHR 0xFF"
  by (auto simp: isxdigit_def isdigit_def in_range_def)

text \<open>
  The hexadecimal digits after \<^verbatim>\<open>\u\<close>, lines 204 to 211. The C loop reads the first digit
  before the loop and, in each of its four rounds, tests the current byte and reads the
  next one; the byte read in the fourth round is the one the enclosing \<^verbatim>\<open>while\<close> tests
  next. \<open>lex_hex n\<close> reads and tests \<open>n\<close> bytes in the same order and leaves that last
  read to the enclosing loop. \<open>False\<close> is \<^verbatim>\<open>goto out\<close>.
\<close>

fun lex_hex :: "nat \<Rightarrow> lex_t \<Rightarrow> fault + (bool \<times> lex_t)" where
  "lex_hex 0 lx = Inr (True, lx)"
| "lex_hex (Suc n) lx =
     (case lex_get_save lx of
        Inl f \<Rightarrow> Inl f
      | Inr (c, lx1) \<Rightarrow>
          if \<not> isxdigit c then
            (case lex_unget_unsave lx1 c of
               Inl f \<Rightarrow> Inl f
             | Inr lx2 \<Rightarrow> Inr (False, lx2))
          else lex_hex n lx1)"

lemma trans_lex_rel: "trans lex_rel"
  unfolding lex_rel_def stream_rel_def
  by (intro trans_inv_image trans_lex_prod trans_less_than)

lemma lex_rel_trans: "(a, b) \<in> lex_rel \<Longrightarrow> (b, c) \<in> lex_rel \<Longrightarrow> (a, c) \<in> lex_rel"
  using trans_lex_rel by (rule transD)

lemma lex_hex_rel:
  "lex_hex n lx = Inr (True, lx') \<Longrightarrow> lx' = lx \<or> (lx', lx) \<in> lex_rel"
proof (induction n arbitrary: lx)
  case 0
  then show ?case by simp
next
  case (Suc n)
  from Suc.prems obtain c lx1 where g: "lex_get_save lx = Inr (c, lx1)"
    and x: "isxdigit c" and r: "lex_hex n lx1 = Inr (True, lx')"
    by (auto split: sum.splits if_splits)
  from g x have "(lx1, lx) \<in> lex_rel"
    by (auto dest: lex_get_save_rel isxdigit_not_FF)
  with Suc.IH [OF r] show ?case by (auto intro: lex_rel_trans)
qed

definition is_escape :: "char \<Rightarrow> bool" where
  "is_escape c = (c = CHR 0x22 \<or> c = CHR 0x5C \<or> c = CHR ''/'' \<or> c = CHR ''b'' \<or>
                   c = CHR ''f'' \<or> c = CHR ''n'' \<or> c = CHR ''r'' \<or> c = CHR ''t'')"

text \<open>
  The raw scan, lines 189 to 223. Every path through the body of the \<^verbatim>\<open>while\<close> ends with
  \<^verbatim>\<open>c = lex_get_save(lex)\<close> or leaves the function, and the loop is entered after such a
  read: a round of \<open>lex_string_raw\<close> is that read followed by the test and the body.
  \<open>True\<close> is the closing quote, \<open>False\<close> is \<^verbatim>\<open>goto out\<close>.
\<close>

function lex_string_raw :: "lex_t \<Rightarrow> fault + (bool \<times> lex_t)" where
  "lex_string_raw lx =
     (case lex_get_save lx of
        Inl f \<Rightarrow> Inl f
      | Inr (c, lx1) \<Rightarrow>
          if c = CHR 0x22 then Inr (True, lx1)
          else
            (case (if schar c = EOF then lex_eof lx1 else Inr False) of
               Inl f \<Rightarrow> Inl f
             | Inr at_end \<Rightarrow>
                 if at_end then Inr (False, lx1)
                 else if 0 \<le> schar c \<and> schar c \<le> 0x1F then
                   (case lex_unget_unsave lx1 c of
                      Inl f \<Rightarrow> Inl f
                    | Inr lx2 \<Rightarrow> Inr (False, lx2))
                 else if c = CHR 0x5C then
                   (case lex_get_save lx1 of
                      Inl f \<Rightarrow> Inl f
                    | Inr (c2, lx2) \<Rightarrow>
                        if c2 = CHR ''u'' then
                          (case lex_hex 4 lx2 of
                             Inl f \<Rightarrow> Inl f
                           | Inr (ok, lx3) \<Rightarrow> if ok then lex_string_raw lx3 else Inr (False, lx3))
                        else if is_escape c2 then lex_string_raw lx2
                        else
                          (case lex_unget_unsave lx2 c2 of
                             Inl f \<Rightarrow> Inl f
                           | Inr lx3 \<Rightarrow> Inr (False, lx3)))
                 else lex_string_raw lx1))"
  by pat_completeness auto

lemma is_escape_not_FF: "is_escape c \<Longrightarrow> c \<noteq> CHR 0xFF"
  by (auto simp: is_escape_def)

lemma lex_get_save_rel_not_end:
  "lex_get_save lx = Inr (c, lx') \<Longrightarrow>
     (if schar c = EOF then lex_eof lx' else Inr False) = Inr False \<Longrightarrow> (lx', lx) \<in> lex_rel"
  by (auto dest!: lex_get_save_rel simp: schar_FF EOF_def split: if_splits)

termination lex_string_raw
proof (relation lex_rel, goal_cases)
  case 1
  show ?case by (rule wf_lex_rel)
next
  case (2 lx x c lx1 at_end x2 c2 lx2 x3 ok lx3)
  then have a: "(lx1, lx) \<in> lex_rel" by (auto dest: lex_get_save_rel_not_end)
  from 2 have b: "(lx2, lx1) \<in> lex_rel" by (auto dest!: lex_get_save_rel)
  from 2 have "lx3 = lx2 \<or> (lx3, lx2) \<in> lex_rel" by (auto dest: lex_hex_rel)
  with a b show ?case by (auto intro: lex_rel_trans)
next
  case (3 lx x c lx1 at_end x2 c2 lx2)
  then have a: "(lx1, lx) \<in> lex_rel" by (auto dest: lex_get_save_rel_not_end)
  from 3 have b: "(lx2, lx1) \<in> lex_rel" by (auto dest!: lex_get_save_rel is_escape_not_FF)
  with a b show ?case by (auto intro: lex_rel_trans)
next
  case (4 lx x c lx1 at_end)
  then show ?case by (auto dest: lex_get_save_rel_not_end)
qed

declare lex_string_raw.simps [simp del]

text \<open>
  The decoding pass, lines 244 to 271, over the saved text behind the opening quote.
  \<open>Inr None\<close> is the exit at \<^verbatim>\<open>\u\<close>, \<open>Inr (Some t)\<close> the decoded bytes. A text that ends
  before a closing quote makes the C loop run past the terminator of the buffer; the
  \<^verbatim>\<open>default\<close> of the \<^verbatim>\<open>switch\<close> is \<^verbatim>\<open>assert(0)\<close> and, under \<^verbatim>\<open>NDEBUG\<close>, leaves the target byte
  unwritten.
\<close>

definition unescape :: "char \<Rightarrow> char option" where
  "unescape c =
     (if c = CHR 0x22 \<or> c = CHR 0x5C \<or> c = CHR ''/'' then Some c
      else if c = CHR ''b'' then Some (CHR 0x08)
      else if c = CHR ''f'' then Some (CHR 0x0C)
      else if c = CHR ''n'' then Some (CHR 0x0A)
      else if c = CHR ''r'' then Some (CHR 0x0D)
      else if c = CHR ''t'' then Some (CHR 0x09)
      else None)"

fun decode :: "bool \<Rightarrow> char list \<Rightarrow> fault + char list option" where
  "decode nd [] = Inl OutOfBounds"
| "decode nd (c # p) =
     (if c = CHR 0x22 then Inr (Some [])
      else if c = CHR 0x5C then
        (case p of
           [] \<Rightarrow> Inl (if nd then Uninitialised else AssertFail)
         | e # p' \<Rightarrow>
             if e = CHR ''u'' then Inr None
             else
               (case unescape e of
                  None \<Rightarrow> Inl (if nd then Uninitialised else AssertFail)
                | Some d \<Rightarrow>
                    (case decode nd p' of
                       Inl f \<Rightarrow> Inl f
                     | Inr None \<Rightarrow> Inr None
                     | Inr (Some t) \<Rightarrow> Inr (Some (d # t)))))
      else
        (case decode nd p of
           Inl f \<Rightarrow> Inl f
         | Inr None \<Rightarrow> Inr None
         | Inr (Some t) \<Rightarrow> Inr (Some (c # t))))"

text \<open>\<^verbatim>\<open>lex_scan_string\<close>. The block that \<^verbatim>\<open>malloc\<close> returned is freed again at \<^verbatim>\<open>\u\<close>.\<close>

definition lex_scan_string :: "heap \<Rightarrow> lex_t \<Rightarrow> fault + (heap \<times> lex_t)" where
  "lex_scan_string h lx =
     (case lex_string_raw (lx\<lparr>token := TOKEN_INVALID\<rparr>) of
        Inl f \<Rightarrow> Inl f
      | Inr (closed, lx1) \<Rightarrow>
          if \<not> closed then Inr (h, lx1)
          else
            (case malloc h of
               (ok, h1) \<Rightarrow>
                 if \<not> ok then Inr (h1, lx1\<lparr>val := VString None\<rparr>)
                 else
                   (case decode (ndebug (stream lx1)) (drop 1 (c_str (saved_text lx1))) of
                      Inl f \<Rightarrow> Inl f
                    | Inr None \<Rightarrow> Inr (free h1 (Some []), lx1\<lparr>val := VString None\<rparr>)
                    | Inr (Some t) \<Rightarrow> Inr (h1, lx1\<lparr>val := VString (Some t), token := TOKEN_STRING\<rparr>))))"

section \<open>Tokens\<close>

definition is_ws :: "char \<Rightarrow> bool" where
  "is_ws c = (c = CHR '' '' \<or> c = CHR 0x09 \<or> c = CHR 0x0A \<or> c = CHR 0x0D)"

definition is_letter :: "char \<Rightarrow> bool" where
  "is_letter c = (isupper c \<or> islower c)"

definition is_punct :: "char \<Rightarrow> bool" where
  "is_punct c = (c = CHR ''{'' \<or> c = CHR ''}'' \<or> c = CHR ''['' \<or> c = CHR '']'' \<or>
                  c = CHR '':'' \<or> c = CHR '','')"

lemma is_ws_not_FF: "is_ws c \<Longrightarrow> c \<noteq> CHR 0xFF"
  by (auto simp: is_ws_def)

lemma is_letter_not_FF: "is_letter c \<Longrightarrow> c \<noteq> CHR 0xFF"
  by (auto simp: is_letter_def isupper_def islower_def in_range_def)

lemma lex_rel_line: "(lx', lx) \<in> lex_rel \<Longrightarrow> (lx'\<lparr>line := n\<rparr>, lx) \<in> lex_rel"
  by (simp add: lex_rel_def)

text \<open>The white space loop of \<^verbatim>\<open>lex_scan\<close>, lines 360 to 367; it returns the first byte
  that is not white space.\<close>

function lex_skip_ws :: "lex_t \<Rightarrow> fault + (char \<times> lex_t)" where
  "lex_skip_ws lx =
     (case lex_get lx of
        Inl f \<Rightarrow> Inl f
      | Inr (c, lx1) \<Rightarrow>
          if is_ws c
          then lex_skip_ws (if c = CHR 0x0A then lx1\<lparr>line := line lx1 + 1\<rparr> else lx1)
          else Inr (c, lx1))"
  by pat_completeness auto
termination
  by (relation lex_rel) (auto simp: wf_lex_rel intro!: lex_rel_line dest: is_ws_not_FF lex_get_rel)

declare lex_skip_ws.simps [simp del]

text \<open>The loop over the letters of an identifier, lines 389 to 391.\<close>

function lex_letters :: "lex_t \<Rightarrow> fault + (char \<times> lex_t)" where
  "lex_letters lx =
     (case lex_get_save lx of
        Inl f \<Rightarrow> Inl f
      | Inr (c, lx') \<Rightarrow> if is_letter c then lex_letters lx' else Inr (c, lx'))"
  by pat_completeness auto
termination
  by (relation lex_rel) (auto simp: wf_lex_rel dest: is_letter_not_FF lex_get_save_rel)

declare lex_letters.simps [simp del]

text \<open>The member \<^verbatim>\<open>string\<close> of the union; the union holds a pointer only after a string
  was scanned.\<close>

definition value_string :: "lex_value \<Rightarrow> fault + char list option" where
  "value_string v = (case v of VString p \<Rightarrow> Inr p | _ \<Rightarrow> Inl Uninitialised)"

definition lex_scan :: "heap \<Rightarrow> lex_t \<Rightarrow> fault + (heap \<times> lex_t)" where
  "lex_scan h lx =
     (case (if token lx = TOKEN_STRING
            then (case value_string (val lx) of
                    Inl f \<Rightarrow> Inl f
                  | Inr p \<Rightarrow> Inr (free h p, lx\<lparr>saved_text := [], val := VString None\<rparr>))
            else Inr (h, lx\<lparr>saved_text := []\<rparr>)) of
        Inl f \<Rightarrow> Inl f
      | Inr (h1, lx1) \<Rightarrow>
          (case lex_skip_ws lx1 of
             Inl f \<Rightarrow> Inl f
           | Inr (c, lx2) \<Rightarrow>
               (case (if schar c = EOF then lex_eof lx2 else Inr False) of
                  Inl f \<Rightarrow> Inl f
                | Inr at_end \<Rightarrow>
                    if at_end then Inr (h1, lx2\<lparr>token := TOKEN_EOF\<rparr>)
                    else
                      (let lx3 = lex_save lx2 c in
                       if is_punct c then Inr (h1, lx3\<lparr>token := schar c\<rparr>)
                       else if c = CHR 0x22 then lex_scan_string h1 lx3
                       else if isdigit c \<or> c = CHR ''-'' then
                         (case lex_scan_number lx3 c of
                            Inl f \<Rightarrow> Inl f
                          | Inr lx4 \<Rightarrow> Inr (h1, lx4))
                       else if isupper c \<or> islower c then
                         (case lex_letters lx3 of
                            Inl f \<Rightarrow> Inl f
                          | Inr (c', lx4) \<Rightarrow>
                              (case lex_unget_unsave lx4 c' of
                                 Inl f \<Rightarrow> Inl f
                               | Inr lx5 \<Rightarrow>
                                   (let t = c_str (saved_text lx5) in
                                    Inr (h1, lx5\<lparr>token :=
                                      (if t = ''true'' then TOKEN_TRUE
                                       else if t = ''false'' then TOKEN_FALSE
                                       else if t = ''null'' then TOKEN_NULL
                                       else TOKEN_INVALID)\<rparr>))))
                       else Inr (h1, lx3\<lparr>token := TOKEN_INVALID\<rparr>)))))"

text \<open>
  \<^verbatim>\<open>lex_init\<close> and \<^verbatim>\<open>lex_close\<close>. Modelled from the spec: \<^verbatim>\<open>strbuffer_init\<close> is defined outside
  \<^verbatim>\<open>load.c\<close>; it allocates the accumulator and can fail. The storage of the accumulator
  is not counted among the blocks of the heap.
\<close>

definition strbuffer_init :: "heap \<Rightarrow> bool \<times> heap" where
  "strbuffer_init h = alloc h"

definition lex_init :: "heap \<Rightarrow> lex_t \<Rightarrow> source \<Rightarrow> int \<times> heap \<times> lex_t" where
  "lex_init h lx d =
     (let lx1 = lx\<lparr>stream := stream_init (stream lx) d\<rparr> in
      case strbuffer_init h of
        (ok, h1) \<Rightarrow>
          if \<not> ok then (- 1, h1, lx1)
          else (0, h1, lx1\<lparr>saved_text := [], token := TOKEN_INVALID, line := 1\<rparr>))"

definition lex_close :: "heap \<Rightarrow> lex_t \<Rightarrow> fault + heap" where
  "lex_close h lx =
     (if token lx = TOKEN_STRING
      then (case value_string (val lx) of Inl f \<Rightarrow> Inl f | Inr p \<Rightarrow> Inr (free h p))
      else Inr h)"

section \<open>Error reporting\<close>

text \<open>
  \<^verbatim>\<open>json_error_t\<close> is declared in \<^verbatim>\<open>jansson.h\<close>: a line and a text of
  \<^verbatim>\<open>JSON_ERROR_TEXT_LENGTH\<close> bytes. The constant is not in \<^verbatim>\<open>load.c\<close> and is the argument
  \<open>len\<close> of everything that reports an error. \<^verbatim>\<open>snprintf(buf, n, ...)\<close> stores at most \<open>n - 1\<close>
  bytes and a terminator, nothing when \<open>n\<close> is 0. \<open>msg\<close> is the message with the
  arguments of its format already filled in.
\<close>

record json_error_t =
  error_line :: int
  error_text :: "char list"

definition snprintf :: "nat \<Rightarrow> char list \<Rightarrow> char list \<Rightarrow> char list" where
  "snprintf n old new = (if n = 0 then old else take (n - 1) new)"

definition error_set :: "nat \<Rightarrow> json_error_t option \<Rightarrow> lex_t option \<Rightarrow> char list \<Rightarrow> json_error_t option" where
  "error_set len error lxo msg =
     (case error of
        None \<Rightarrow> None
      | Some e \<Rightarrow>
          (let text = snprintf len [] (c_str msg) in
           case lxo of
             Some lx \<Rightarrow>
               (let saved = c_str (saved_text lx) in
                Some (e\<lparr>error_line := line lx,
                        error_text := snprintf len (error_text e)
                          (if saved \<noteq> [] then text @ '' near '' @ [CHR 0x27] @ saved @ [CHR 0x27]
                           else text @ '' near end of file'')\<rparr>))
           | None \<Rightarrow> Some (e\<lparr>error_line := - 1, error_text := snprintf len (error_text e) text\<rparr>)))"

section \<open>The value model\<close>

text \<open>
  Modelled from the spec: the value tree and its operations (\<^verbatim>\<open>json_object\<close>,
  \<^verbatim>\<open>json_array\<close>, \<^verbatim>\<open>json_string_nocheck\<close>, \<^verbatim>\<open>json_integer\<close>, \<^verbatim>\<open>json_real\<close>, \<^verbatim>\<open>json_true\<close>,
  \<^verbatim>\<open>json_false\<close>, \<^verbatim>\<open>json_null\<close>, \<^verbatim>\<open>json_object_set_nocheck\<close>, \<^verbatim>\<open>json_array_append\<close>,
  \<^verbatim>\<open>json_decref\<close>) are defined outside \<^verbatim>\<open>load.c\<close>. The spec gives the contract: the
  constructors make a node that the caller owns, or nothing when the allocation fails
  (or when the string is a null pointer);
  set-member puts a member into an object, a repeated key overwriting the earlier
  member, and append-element adds an element at the end of an array, keeping the order
  of the document; release gives up the caller's reference. The model is reference
  counted, as the spec says of the value model: a container holds a reference of its
  own to each child, which is why the parser releases its reference after a successful
  insertion, and a node whose last reference is released is freed with all it holds.
  A \<open>json_t\<close> is a pointer as the parser holds it: the tree it points to and the number
  of references to its root.
\<close>

datatype json =
    JObject "(char list \<times> json) list"
  | JArray "json list"
  | JString "char list"
  | JInteger "32 word"
  | JReal c_double
  | JTrue
  | JFalse
  | JNull

fun count_nodes :: "json \<Rightarrow> nat" where
  "count_nodes (JObject ms) = 1 + sum_list (map (\<lambda>(k, v). count_nodes v) ms)"
| "count_nodes (JArray xs) = 1 + sum_list (map count_nodes xs)"
| "count_nodes (JString v) = 1"
| "count_nodes (JInteger v) = 1"
| "count_nodes (JReal v) = 1"
| "count_nodes JTrue = 1"
| "count_nodes JFalse = 1"
| "count_nodes JNull = 1"

record json_t =
  tree :: json
  refcount :: nat

definition json_new :: "heap \<Rightarrow> json \<Rightarrow> json_t option \<times> heap" where
  "json_new h v =
     (case alloc h of
        (ok, h1) \<Rightarrow>
          if ok then (Some \<lparr>tree = v, refcount = 1\<rparr>, h1\<lparr>nodes := nodes h1 + 1\<rparr>) else (None, h1))"

definition json_object :: "heap \<Rightarrow> json_t option \<times> heap" where
  "json_object h = json_new h (JObject [])"

definition json_array :: "heap \<Rightarrow> json_t option \<times> heap" where
  "json_array h = json_new h (JArray [])"

definition json_string_nocheck :: "heap \<Rightarrow> char list option \<Rightarrow> json_t option \<times> heap" where
  "json_string_nocheck h p = (case p of None \<Rightarrow> (None, h) | Some v \<Rightarrow> json_new h (JString v))"

definition json_integer :: "heap \<Rightarrow> 32 word \<Rightarrow> json_t option \<times> heap" where
  "json_integer h v = json_new h (JInteger v)"

definition json_real :: "heap \<Rightarrow> c_double \<Rightarrow> json_t option \<times> heap" where
  "json_real h v = json_new h (JReal v)"

definition json_true :: "heap \<Rightarrow> json_t option \<times> heap" where
  "json_true h = json_new h JTrue"

definition json_false :: "heap \<Rightarrow> json_t option \<times> heap" where
  "json_false h = json_new h JFalse"

definition json_null :: "heap \<Rightarrow> json_t option \<times> heap" where
  "json_null h = json_new h JNull"

definition json_decref :: "heap \<Rightarrow> json_t \<Rightarrow> heap \<times> json_t option" where
  "json_decref h j =
     (if refcount j \<le> 1 then (h\<lparr>nodes := nodes h - count_nodes (tree j)\<rparr>, None)
      else (h, Some (j\<lparr>refcount := refcount j - 1\<rparr>)))"

fun set_member :: "(char list \<times> json) list \<Rightarrow> char list \<Rightarrow> json \<Rightarrow> (char list \<times> json) list \<times> nat" where
  "set_member [] k v = ([(k, v)], 0)"
| "set_member ((k', v') # ms) k v =
     (if k' = k then ((k, v) # ms, count_nodes v')
      else (case set_member ms k v of (ms', n) \<Rightarrow> ((k', v') # ms', n)))"

text \<open>
  Set-member and append-element give the status (0, or \<open>-1\<close> on failure), the heap, the
  container and the child as the parser now holds it, with one reference more after a
  success. A member that is overwritten is released by the object.
\<close>

definition json_object_set_nocheck ::
    "heap \<Rightarrow> json_t \<Rightarrow> char list \<Rightarrow> json_t \<Rightarrow> int \<times> heap \<times> json_t \<times> json_t" where
  "json_object_set_nocheck h object k v =
     (case tree object of
        JObject ms \<Rightarrow>
          (case alloc h of
             (ok, h1) \<Rightarrow>
               if \<not> ok then (- 1, h1, object, v)
               else
                 (case set_member ms k (tree v) of
                    (ms', n) \<Rightarrow>
                      (0, h1\<lparr>nodes := nodes h1 - n\<rparr>, object\<lparr>tree := JObject ms'\<rparr>,
                       v\<lparr>refcount := refcount v + 1\<rparr>)))
      | _ \<Rightarrow> (- 1, h, object, v))"

definition json_array_append :: "heap \<Rightarrow> json_t \<Rightarrow> json_t \<Rightarrow> int \<times> heap \<times> json_t \<times> json_t" where
  "json_array_append h array v =
     (case tree array of
        JArray xs \<Rightarrow>
          (case alloc h of
             (ok, h1) \<Rightarrow>
               if \<not> ok then (- 1, h1, array, v)
               else (0, h1, array\<lparr>tree := JArray (xs @ [tree v])\<rparr>, v\<lparr>refcount := refcount v + 1\<rparr>))
      | _ \<Rightarrow> (- 1, h, array, v))"

text \<open>\<^verbatim>\<open>strdup\<close> of the C library: a block holding a copy, or nothing.\<close>

definition strdup :: "heap \<Rightarrow> char list \<Rightarrow> char list option \<times> heap" where
  "strdup h v = (case malloc h of (ok, h1) \<Rightarrow> (if ok then Some v else None, h1))"

section \<open>The parser\<close>

text \<open>
  What the parser works on: the heap, the lexer and the destination of the diagnostic
  (\<open>None\<close> is the null pointer). The functions of the parser call each other
  recursively, once for each nested container and each member; \<open>n\<close> bounds the number
  of these calls, and a run that needs more ends in \<open>OutOfFuel\<close>.
\<close>

record pstate =
  hp :: heap
  lxr :: lex_t
  err :: "json_error_t option"

definition scan :: "pstate \<Rightarrow> fault + pstate" where
  "scan st =
     (case lex_scan (hp st) (lxr st) of
        Inl f \<Rightarrow> Inl f
      | Inr (h, l) \<Rightarrow> Inr (st\<lparr>hp := h, lxr := l\<rparr>))"

definition report :: "nat \<Rightarrow> pstate \<Rightarrow> char list \<Rightarrow> pstate" where
  "report len st msg = st\<lparr>err := error_set len (err st) (Some (lxr st)) msg\<rparr>"

definition release :: "pstate \<Rightarrow> json_t \<Rightarrow> pstate" where
  "release st j = st\<lparr>hp := fst (json_decref (hp st) j)\<rparr>"

definition free_key :: "pstate \<Rightarrow> char list \<Rightarrow> pstate" where
  "free_key st key = st\<lparr>hp := free (hp st) (Some key)\<rparr>"

definition tok_of :: "char \<Rightarrow> int" where
  "tok_of c = schar c"

text \<open>Lines 489 to 498 and 529 to 538: the test after the loop, and the label \<^verbatim>\<open>error\<close>.\<close>

definition parse_object_end :: "nat \<Rightarrow> json_t \<Rightarrow> pstate \<Rightarrow> json_t option \<times> pstate" where
  "parse_object_end len object st =
     (if token (lxr st) \<noteq> tok_of CHR ''}''
      then (None, release (report len st [CHR 0x27, CHR ''}'', CHR 0x27, CHR '' '', CHR ''e'', CHR ''x'',
              CHR ''p'', CHR ''e'', CHR ''c'', CHR ''t'', CHR ''e'', CHR ''d'']) object)
      else (Some object, st))"

definition parse_array_end :: "nat \<Rightarrow> json_t \<Rightarrow> pstate \<Rightarrow> json_t option \<times> pstate" where
  "parse_array_end len array st =
     (if token (lxr st) \<noteq> tok_of CHR '']''
      then (None, release (report len st [CHR 0x27, CHR '']'', CHR 0x27, CHR '' '', CHR ''e'', CHR ''x'',
              CHR ''p'', CHR ''e'', CHR ''c'', CHR ''t'', CHR ''e'', CHR ''d'']) array)
      else (Some array, st))"

fun parse_value :: "nat \<Rightarrow> nat \<Rightarrow> pstate \<Rightarrow> fault + (json_t option \<times> pstate)"
  and parse_object :: "nat \<Rightarrow> nat \<Rightarrow> pstate \<Rightarrow> fault + (json_t option \<times> pstate)"
  and parse_object_loop :: "nat \<Rightarrow> nat \<Rightarrow> json_t \<Rightarrow> pstate \<Rightarrow> fault + (json_t option \<times> pstate)"
  and parse_array :: "nat \<Rightarrow> nat \<Rightarrow> pstate \<Rightarrow> fault + (json_t option \<times> pstate)"
  and parse_array_loop :: "nat \<Rightarrow> nat \<Rightarrow> json_t \<Rightarrow> pstate \<Rightarrow> fault + (json_t option \<times> pstate)"
where
  "parse_value len n st =
     (let t = token (lxr st) in
      if t = TOKEN_STRING then
        (case value_string (val (lxr st)) of
           Inl f \<Rightarrow> Inl f
         | Inr p \<Rightarrow> (case json_string_nocheck (hp st) p of (j, h) \<Rightarrow> Inr (j, st\<lparr>hp := h\<rparr>)))
      else if t = TOKEN_INTEGER then
        (case val (lxr st) of
           VInteger v \<Rightarrow> (case json_integer (hp st) v of (j, h) \<Rightarrow> Inr (j, st\<lparr>hp := h\<rparr>))
         | _ \<Rightarrow> Inl Uninitialised)
      else if t = TOKEN_REAL then
        (case val (lxr st) of
           VReal v \<Rightarrow> (case json_real (hp st) v of (j, h) \<Rightarrow> Inr (j, st\<lparr>hp := h\<rparr>))
         | _ \<Rightarrow> Inl Uninitialised)
      else if t = TOKEN_TRUE then (case json_true (hp st) of (j, h) \<Rightarrow> Inr (j, st\<lparr>hp := h\<rparr>))
      else if t = TOKEN_FALSE then (case json_false (hp st) of (j, h) \<Rightarrow> Inr (j, st\<lparr>hp := h\<rparr>))
      else if t = TOKEN_NULL then (case json_null (hp st) of (j, h) \<Rightarrow> Inr (j, st\<lparr>hp := h\<rparr>))
      else if t = tok_of CHR ''{'' then
        (case n of 0 \<Rightarrow> Inl OutOfFuel | Suc m \<Rightarrow> parse_object len m st)
      else if t = tok_of CHR ''['' then
        (case n of 0 \<Rightarrow> Inl OutOfFuel | Suc m \<Rightarrow> parse_array len m st)
      else if t = TOKEN_INVALID then Inr (None, report len st ''invalid token'')
      else Inr (None, report len st ''unexpected token''))"
| "parse_object len n st =
     (case json_object (hp st) of
        (None, h) \<Rightarrow> Inr (None, st\<lparr>hp := h\<rparr>)
      | (Some object, h) \<Rightarrow>
          (case scan (st\<lparr>hp := h\<rparr>) of
             Inl f \<Rightarrow> Inl f
           | Inr st1 \<Rightarrow>
               if token (lxr st1) = tok_of CHR ''}'' then Inr (Some object, st1)
               else (case n of 0 \<Rightarrow> Inl OutOfFuel | Suc m \<Rightarrow> parse_object_loop len m object st1)))"
| "parse_object_loop len n object st =
     (if token (lxr st) \<noteq> TOKEN_STRING
      then Inr (None, release (report len st
                  (''string or '' @ [CHR 0x27, CHR ''}'', CHR 0x27] @ '' expected'')) object)
      else
        (case value_string (val (lxr st)) of
           Inl f \<Rightarrow> Inl f
         | Inr None \<Rightarrow> Inl NullPointer
         | Inr (Some v) \<Rightarrow>
             (case strdup (hp st) v of
                (None, h1) \<Rightarrow> Inr (None, st\<lparr>hp := h1\<rparr>)
              | (Some key, h1) \<Rightarrow>
                  (case scan (st\<lparr>hp := h1\<rparr>) of
                     Inl f \<Rightarrow> Inl f
                   | Inr st2 \<Rightarrow>
                       if token (lxr st2) \<noteq> tok_of CHR '':''
                       then Inr (None, release (report len (free_key st2 key)
                                   ([CHR 0x27, CHR '':'', CHR 0x27] @ '' expected'')) object)
                       else
                         (case scan st2 of
                            Inl f \<Rightarrow> Inl f
                          | Inr st3 \<Rightarrow>
                              (case parse_value len n st3 of
                                 Inl f \<Rightarrow> Inl f
                               | Inr (None, st4) \<Rightarrow> Inr (None, release (free_key st4 key) object)
                               | Inr (Some v1, st4) \<Rightarrow>
                                   (case json_object_set_nocheck (hp st4) object key v1 of
                                      (rc, h5, object', v2) \<Rightarrow>
                                        if rc \<noteq> 0
                                        then Inr (None,
                                               release (release (free_key (st4\<lparr>hp := h5\<rparr>) key) v2) object')
                                        else
                                          (case scan (free_key (release (st4\<lparr>hp := h5\<rparr>) v2) key) of
                                             Inl f \<Rightarrow> Inl f
                                           | Inr st6 \<Rightarrow>
                                               if token (lxr st6) \<noteq> tok_of CHR '',''
                                               then Inr (parse_object_end len object' st6)
                                               else
                                                 (case scan st6 of
                                                    Inl f \<Rightarrow> Inl f
                                                  | Inr st7 \<Rightarrow>
                                                      (case n of
                                                         0 \<Rightarrow> Inl OutOfFuel
                                                       | Suc m \<Rightarrow> parse_object_loop len m object' st7))))))))))"
| "parse_array len n st =
     (case json_array (hp st) of
        (None, h) \<Rightarrow> Inr (None, st\<lparr>hp := h\<rparr>)
      | (Some array, h) \<Rightarrow>
          (case scan (st\<lparr>hp := h\<rparr>) of
             Inl f \<Rightarrow> Inl f
           | Inr st1 \<Rightarrow>
               if token (lxr st1) = tok_of CHR '']'' then Inr (Some array, st1)
               else (case n of 0 \<Rightarrow> Inl OutOfFuel | Suc m \<Rightarrow> parse_array_loop len m array st1)))"
| "parse_array_loop len n array st =
     (if token (lxr st) = 0 then Inr (parse_array_end len array st)
      else
        (case parse_value len n st of
           Inl f \<Rightarrow> Inl f
         | Inr (None, st1) \<Rightarrow> Inr (None, release st1 array)
         | Inr (Some elem, st1) \<Rightarrow>
             (case json_array_append (hp st1) array elem of
                (rc, h2, array', elem') \<Rightarrow>
                  if rc \<noteq> 0 then Inr (None, release (release (st1\<lparr>hp := h2\<rparr>) elem') array')
                  else
                    (case scan (release (st1\<lparr>hp := h2\<rparr>) elem') of
                       Inl f \<Rightarrow> Inl f
                     | Inr st3 \<Rightarrow>
                         if token (lxr st3) \<noteq> tok_of CHR '',''
                         then Inr (parse_array_end len array' st3)
                         else
                           (case scan st3 of
                              Inl f \<Rightarrow> Inl f
                            | Inr st4 \<Rightarrow>
                                (case n of
                                   0 \<Rightarrow> Inl OutOfFuel
                                 | Suc m \<Rightarrow> parse_array_loop len m array' st4))))))"

declare parse_value.simps [simp del] parse_object.simps [simp del] parse_object_loop.simps [simp del]
  parse_array.simps [simp del] parse_array_loop.simps [simp del]

definition msg_container_expected :: "char list" where
  "msg_container_expected =
     [CHR 0x27, CHR ''['', CHR 0x27] @ '' or '' @ [CHR 0x27, CHR ''{'', CHR 0x27] @ '' expected''"

definition parse_json :: "nat \<Rightarrow> nat \<Rightarrow> pstate \<Rightarrow> fault + (json_t option \<times> pstate)" where
  "parse_json len n st =
     (case scan st of
        Inl f \<Rightarrow> Inl f
      | Inr st1 \<Rightarrow>
          if token (lxr st1) \<noteq> tok_of CHR ''['' \<and> token (lxr st1) \<noteq> tok_of CHR ''{''
          then Inr (None, report len st1 msg_container_expected)
          else parse_value len n st1)"

section \<open>The entry points\<close>

text \<open>
  \<^verbatim>\<open>json_loads\<close> and \<^verbatim>\<open>json_loadf\<close> declare their \<^verbatim>\<open>lex_t\<close> as a local variable without
  an initialiser. \<open>lex_auto\<close> is that variable before \<^verbatim>\<open>lex_init\<close>: what it holds is not
  determined by the program, and the model fills it with bytes \<open>0xAA\<close> and empty values.
  The arguments \<open>nd\<close>, \<open>len\<close> and \<open>n\<close> are the build (\<^verbatim>\<open>NDEBUG\<close> or not), the value of
  \<^verbatim>\<open>JSON_ERROR_TEXT_LENGTH\<close> and the bound on the recursion; \<open>h\<close> is the heap at the call.
  The result is the returned pointer, the heap at the return and the diagnostic.
\<close>

definition lex_auto :: "bool \<Rightarrow> lex_t" where
  "lex_auto nd =
     \<lparr>stream = \<lparr>src = File [] False, buffer = replicate 5 (CHR 0xAA), buffer_pos = 0, ndebug = nd\<rparr>,
      saved_text = [], token = 0, line = 0, column = 0, val = VNone\<rparr>"

definition json_loads ::
    "bool \<Rightarrow> nat \<Rightarrow> nat \<Rightarrow> heap \<Rightarrow> char list \<Rightarrow> json_error_t option
      \<Rightarrow> fault + (json_t option \<times> heap \<times> json_error_t option)" where
  "json_loads nd len n h string error =
     (case lex_init h (lex_auto nd) (StringData string 0) of
        (rc, h1, lx) \<Rightarrow>
          if rc \<noteq> 0 then Inr (None, h1, error)
          else
            (case parse_json len n \<lparr>hp = h1, lxr = lx, err = error\<rparr> of
               Inl f \<Rightarrow> Inl f
             | Inr (None, st) \<Rightarrow>
                 (case lex_close (hp st) (lxr st) of
                    Inl f \<Rightarrow> Inl f
                  | Inr h2 \<Rightarrow> Inr (None, h2, err st))
             | Inr (Some result, st) \<Rightarrow>
                 (case scan st of
                    Inl f \<Rightarrow> Inl f
                  | Inr st1 \<Rightarrow>
                      if token (lxr st1) \<noteq> TOKEN_EOF
                      then
                        (let st2 = release (report len st1 ''end of file expected'') result in
                         case lex_close (hp st2) (lxr st2) of
                           Inl f \<Rightarrow> Inl f
                         | Inr h2 \<Rightarrow> Inr (None, h2, err st2))
                      else
                        (case lex_close (hp st1) (lxr st1) of
                           Inl f \<Rightarrow> Inl f
                         | Inr h2 \<Rightarrow> Inr (Some result, h2, err st1)))))"

definition json_loadf ::
    "bool \<Rightarrow> nat \<Rightarrow> nat \<Rightarrow> heap \<Rightarrow> source \<Rightarrow> json_error_t option
      \<Rightarrow> fault + (json_t option \<times> heap \<times> json_error_t option)" where
  "json_loadf nd len n h input error =
     (case lex_init h (lex_auto nd) input of
        (rc, h1, lx) \<Rightarrow>
          if rc \<noteq> 0 then Inr (None, h1, error)
          else
            (case parse_json len n \<lparr>hp = h1, lxr = lx, err = error\<rparr> of
               Inl f \<Rightarrow> Inl f
             | Inr (result, st) \<Rightarrow>
                 (case lex_close (hp st) (lxr st) of
                    Inl f \<Rightarrow> Inl f
                  | Inr h2 \<Rightarrow> Inr (result, h2, err st))))"

text \<open>
  \<^verbatim>\<open>json_load\<close>: \<open>opened\<close> is what \<^verbatim>\<open>fopen(path, "r")\<close> gives, the content of the file or
  nothing, and \<open>why\<close> the text of \<^verbatim>\<open>strerror(errno)\<close>.
\<close>

definition json_load ::
    "bool \<Rightarrow> nat \<Rightarrow> nat \<Rightarrow> heap \<Rightarrow> char list \<Rightarrow> char list option \<Rightarrow> char list \<Rightarrow> json_error_t option
      \<Rightarrow> fault + (json_t option \<times> heap \<times> json_error_t option)" where
  "json_load nd len n h path opened why error =
     (case opened of
        None \<Rightarrow> Inr (None, h, error_set len error None (''unable to open '' @ path @ '': '' @ why))
      | Some bytes \<Rightarrow> json_loadf nd len n h (File bytes False) error)"

section \<open>Test data\<close>

definition empty_heap :: heap where
  "empty_heap = \<lparr>outcomes = [], blocks = 0, nodes = 0\<rparr>"

definition blank_error :: json_error_t where
  "blank_error = \<lparr>error_line = 0, error_text = []\<rparr>"

definition dq :: char where
  "dq = CHR 0x22"

definition bs :: char where
  "bs = CHR 0x5C"

definition sq :: char where
  "sq = CHR 0x27"

text \<open>The parser state of \<^verbatim>\<open>json_loadf\<close> after \<^verbatim>\<open>lex_init\<close>, the state after the first
  \<^verbatim>\<open>lex_scan\<close>, and a lexer with a given saved text and line.\<close>

definition start :: "bool \<Rightarrow> source \<Rightarrow> pstate" where
  "start nd d =
     (case lex_init empty_heap (lex_auto nd) d of
        (rc, h, lx) \<Rightarrow> \<lparr>hp = h, lxr = lx, err = Some blank_error\<rparr>)"

definition scanned :: "bool \<Rightarrow> source \<Rightarrow> pstate" where
  "scanned nd d = (case scan (start nd d) of Inr st \<Rightarrow> st | Inl f \<Rightarrow> start nd d)"

definition lex_at :: "char list \<Rightarrow> int \<Rightarrow> lex_t" where
  "lex_at t l = (lex_auto False)\<lparr>saved_text := t, line := l\<rparr>"

section \<open>The end of the document\<close>

text \<open>
  C1: for every entry point, one more token is scanned after the top-level value and
  must be the end of the input; anything else fails with "end of file expected" and no
  tree. \<^verbatim>\<open>json_loads\<close> does this and \<^verbatim>\<open>json_loadf\<close> (and with it \<^verbatim>\<open>json_load\<close>) does not: it
  returns what \<^verbatim>\<open>parse_json\<close> returns. Read from a file, the document \<^verbatim>\<open>{}trailing\<close> gives
  the empty object and no diagnostic, in both builds.
\<close>

theorem json_loadf_accepts_trailing_text:
  "json_loadf False 160 1 empty_heap (File ''{}trailing'' False) (Some blank_error) =
     Inr (Some \<lparr>tree = JObject [], refcount = 1\<rparr>, \<lparr>outcomes = [], blocks = 0, nodes = 1\<rparr>,
          Some blank_error)
   \<and> json_loadf True 160 1 empty_heap (File ''{}trailing'' False) (Some blank_error) =
     Inr (Some \<lparr>tree = JObject [], refcount = 1\<rparr>, \<lparr>outcomes = [], blocks = 0, nodes = 1\<rparr>,
          Some blank_error)"
  by code_simp

text \<open>The same check in \<^verbatim>\<open>json_loads\<close>, on a buffer that holds a second zero byte behind
  the terminator.\<close>

lemma json_loads_rejects_trailing_text:
  "json_loads False 160 1 empty_heap (''{} []'' @ [CHR 0x00, CHR 0x00]) (Some blank_error) =
     Inr (None, empty_heap,
          Some \<lparr>error_line = 1, error_text = ''end of file expected near '' @ [sq, CHR ''['', sq]\<rparr>)"
  by code_simp

section \<open>Release on the error paths of an object\<close>

text \<open>
  C2: on every failure inside the loop of \<^verbatim>\<open>parse_object\<close> the object built so far and the
  value of the current member are released, also when an allocation such as the copy
  of the key fails. When \<^verbatim>\<open>strdup\<close> fails the function returns at once, without the
  \<^verbatim>\<open>json_decref\<close> of the label \<^verbatim>\<open>error\<close>: reading \<^verbatim>\<open>{"a":1}\<close> with the fourth allocation
  failing (after the accumulator, the object and the text of the key) gives no tree and
  leaves one node allocated.
\<close>

theorem parse_object_leaks_on_strdup_failure:
  "json_loadf False 160 2 (empty_heap\<lparr>outcomes := [True, True, True, False]\<rparr>)
      (File ([CHR ''{'', dq, CHR ''a'', dq] @ '':1}'') False) (Some blank_error) =
     Inr (None, \<lparr>outcomes = [], blocks = 0, nodes = 1\<rparr>, Some blank_error)"
  by code_simp

text \<open>The other failures of the loop release the object: here the insertion fails.\<close>

lemma parse_object_releases_on_set_failure:
  "json_loadf False 160 2 (empty_heap\<lparr>outcomes := [True, True, True, True, True, False]\<rparr>)
      (File ([CHR ''{'', dq, CHR ''a'', dq] @ '':1}'') False) (Some blank_error) =
     Inr (None, \<lparr>outcomes = [], blocks = 0, nodes = 0\<rparr>, Some blank_error)"
  by code_simp

section \<open>The first token\<close>

lemma msg_container_expected_text:
  "msg_container_expected = [sq] @ ''['' @ [sq] @ '' or '' @ [sq] @ ''{'' @ [sq] @ '' expected''"
  by (simp add: msg_container_expected_def sq_def)

lemma tok_of_values:
  "tok_of CHR ''{'' = 123" "tok_of CHR ''['' = 91" "tok_of CHR ''}'' = 125" "tok_of CHR '']'' = 93"
  "tok_of CHR '':'' = 58" "tok_of CHR '','' = 44"
  by (simp_all add: tok_of_def schar_def)

text \<open>
  C3: when the first token of the document is neither \<^verbatim>\<open>{\<close> nor \<^verbatim>\<open>[\<close>, as for a bare scalar
  or a bare identifier as the whole document, the top-level parse fails with the message
  \<^verbatim>\<open>'[' or '{' expected\<close> and returns no tree. When the whole document is an identifier or
  a number, the scan of that first token reads the end of the input behind it:
  \<^verbatim>\<open>stream_get\<close> returns \<^verbatim>\<open>EOF\<close> and leaves the cursor of the buffer at 0, the lexer pushes
  the \<^verbatim>\<open>EOF\<close> back with \<^verbatim>\<open>lex_unget_unsave\<close>, and \<^verbatim>\<open>assert(stream->buffer_pos > 0)\<close> of
  \<^verbatim>\<open>stream_unget\<close> fails. Read from a file, the documents \<^verbatim>\<open>trailing\<close>, \<^verbatim>\<open>1\<close> and \<^verbatim>\<open>true\<close>
  abort, and no diagnostic is produced.
\<close>

theorem bare_document_aborts:
  "json_loadf False 160 1 empty_heap (File ''trailing'' False) (Some blank_error) = Inl AssertFail
   \<and> json_loadf False 160 1 empty_heap (File ''1'' False) (Some blank_error) = Inl AssertFail
   \<and> json_loadf False 160 1 empty_heap (File ''true'' False) (Some blank_error) = Inl AssertFail"
  by code_simp

text \<open>Under \<^verbatim>\<open>NDEBUG\<close> the cursor goes to \<open>-1\<close> and the diagnostic is produced; so it is,
  with the assertions compiled in, for a bare string, whose scan ends at the closing
  quote, and for a number with a space behind it.\<close>

lemma bare_document_reported:
  "json_loadf True 160 1 empty_heap (File ''trailing'' False) (Some blank_error) =
     Inr (None, empty_heap,
          Some \<lparr>error_line = 1,
                error_text = [sq] @ ''['' @ [sq] @ '' or '' @ [sq] @ ''{'' @ [sq] @ '' expected near '' @
                             [sq] @ ''trailing'' @ [sq]\<rparr>)"
  "json_loadf False 160 1 empty_heap (File [dq, CHR ''x'', dq] False) (Some blank_error) =
     Inr (None, empty_heap,
          Some \<lparr>error_line = 1,
                error_text = [sq] @ ''['' @ [sq] @ '' or '' @ [sq] @ ''{'' @ [sq] @ '' expected near '' @
                             [sq, dq, CHR ''x'', dq, sq]\<rparr>)"
  "json_loadf False 160 1 empty_heap (File ''1 '' False) (Some blank_error) =
     Inr (None, empty_heap,
          Some \<lparr>error_line = 1,
                error_text = [sq] @ ''['' @ [sq] @ '' or '' @ [sq] @ ''{'' @ [sq] @ '' expected near '' @
                             [sq] @ ''1'' @ [sq]\<rparr>)"
  by code_simp+

text \<open>What \<^verbatim>\<open>parse_json\<close> does once the scan of the first token has returned: the message
  for a token other than \<^verbatim>\<open>{\<close> and \<^verbatim>\<open>[\<close>, whatever the bound of the recursion, and the
  object or the array otherwise.\<close>

lemma parse_json_first_token:
  assumes "scan st = Inr st1"
  shows "(token (lxr st1) \<noteq> tok_of CHR ''['' \<and> token (lxr st1) \<noteq> tok_of CHR ''{'' \<longrightarrow>
            parse_json len n st =
              Inr (None, st1\<lparr>err := error_set len (err st1) (Some (lxr st1))
                     ([sq] @ ''['' @ [sq] @ '' or '' @ [sq] @ ''{'' @ [sq] @ '' expected'')\<rparr>))
       \<and> (token (lxr st1) = tok_of CHR ''{'' \<longrightarrow> parse_json len (Suc n) st = parse_object len n st1)
       \<and> (token (lxr st1) = tok_of CHR ''['' \<longrightarrow> parse_json len (Suc n) st = parse_array len n st1)"
  using assms
  by (simp add: parse_json_def report_def parse_value.simps [of len "Suc n"] tok_of_values
        msg_container_expected_def sq_def
        TOKEN_STRING_def TOKEN_INTEGER_def TOKEN_REAL_def TOKEN_TRUE_def TOKEN_FALSE_def TOKEN_NULL_def)

section \<open>Malformed input inside a string\<close>

text \<open>
  C7: malformed UTF-8 and a control character inside a string give an INVALID token and
  never a crash; a control character is pushed back. For a byte that cannot start a
  UTF-8 sequence \<^verbatim>\<open>stream_get\<close> returns 0 and leaves the cursor of the buffer at 0;
  \<^verbatim>\<open>lex_scan_string\<close> takes the 0 for a control character and calls \<^verbatim>\<open>lex_unget_unsave\<close>,
  where \<^verbatim>\<open>assert(stream->buffer_pos > 0)\<close> of \<^verbatim>\<open>stream_unget\<close> fails. Reading the array
  with the string \<open>a\<close>, byte 0x80 from a file aborts.
\<close>

theorem malformed_utf8_in_string_aborts:
  "json_loadf False 160 2 empty_heap (File ([CHR ''['', dq, CHR ''a'', CHR 0x80, dq, CHR '']'']) False)
      (Some blank_error) = Inl AssertFail"
  by code_simp

text \<open>Under \<^verbatim>\<open>NDEBUG\<close> the token is INVALID and the cursor is left at \<open>-1\<close>, outside the
  buffer.\<close>

lemma malformed_utf8_in_string_ndebug:
  "(case lex_scan empty_heap (lxr (start True (File ([dq, CHR ''a'', CHR 0x80, dq]) False))) of
      Inr (h, lx) \<Rightarrow> token lx = TOKEN_INVALID \<and> buffer_pos (stream lx) = - 1
    | Inl f \<Rightarrow> False)"
  by code_simp

text \<open>A line feed inside a string: the token is INVALID, the line feed is not part of the
  saved text and is the next byte that the stream delivers.\<close>

lemma control_character_in_string:
  "(case lex_scan empty_heap (lxr (start False (File ([dq, CHR ''a'', CHR 0x0A, dq]) False))) of
      Inr (h, lx) \<Rightarrow>
        token lx = TOKEN_INVALID \<and> saved_text lx = [dq, CHR ''a''] \<and>
        src (stream lx) = File [dq] False \<and>
        stream_get (stream lx) = Inr (CHR 0x0A, (stream lx)\<lparr>buffer_pos := 1\<rparr>)
    | Inl f \<Rightarrow> False)"
  by code_simp

section \<open>The diagnostic\<close>

lemma c_str_id: "CHR 0x00 \<notin> set s \<Longrightarrow> c_str s = s"
  by (induction s) (auto simp: c_str_def)

text \<open>
  A run with a null destination and the run with a destination: \<open>no_dest\<close> takes the
  destination out of a parser state, \<open>quiet\<close> out of the result of a function of the
  parser, and \<open>without_diagnostic\<close> out of the result of an entry point. Every function
  of the parser does with a null destination what it does with a destination, the
  diagnostic apart: the same tree, the same heap, the same state of the lexer and the
  same faults.
\<close>

definition no_dest :: "pstate \<Rightarrow> pstate" where
  "no_dest st = st\<lparr>err := None\<rparr>"

definition quiet :: "fault + (json_t option \<times> pstate) \<Rightarrow> fault + (json_t option \<times> pstate)" where
  "quiet r = (case r of Inl f \<Rightarrow> Inl f | Inr (j, st) \<Rightarrow> Inr (j, no_dest st))"

lemma scan_no_dest: "scan (no_dest st) = (case scan st of Inl f \<Rightarrow> Inl f | Inr st1 \<Rightarrow> Inr (no_dest st1))"
  by (simp add: scan_def no_dest_def split: sum.splits prod.splits)

lemma report_no_dest: "report len (no_dest st) msg = no_dest (report len st msg)"
  by (simp add: report_def no_dest_def error_set_def)

lemma release_no_dest: "release (no_dest st) j = no_dest (release st j)"
  by (simp add: release_def no_dest_def)

lemma free_key_no_dest: "free_key (no_dest st) k = no_dest (free_key st k)"
  by (simp add: free_key_def no_dest_def)

lemma no_dest_fields: "hp (no_dest st) = hp st" "lxr (no_dest st) = lxr st"
  "no_dest (st\<lparr>hp := h\<rparr>) = (no_dest st)\<lparr>hp := h\<rparr>" "no_dest (no_dest st) = no_dest st"
  by (simp_all add: no_dest_def)

lemma parse_object_end_no_dest:
  "parse_object_end len object (no_dest st) =
     (case parse_object_end len object st of (j, st') \<Rightarrow> (j, no_dest st'))"
  by (simp add: parse_object_end_def no_dest_fields report_no_dest release_no_dest)

lemma parse_array_end_no_dest:
  "parse_array_end len array (no_dest st) =
     (case parse_array_end len array st of (j, st') \<Rightarrow> (j, no_dest st'))"
  by (simp add: parse_array_end_def no_dest_fields report_no_dest release_no_dest)

lemma quiet_simps:
  "quiet (Inl f) = Inl f" "quiet (Inr (j, st)) = Inr (j, no_dest st)"
  by (simp_all add: quiet_def)

lemma case_scan_no_dest:
  "(case scan (no_dest st) of Inl f \<Rightarrow> Inl f | Inr st1 \<Rightarrow> g st1) =
   (case scan st of Inl f \<Rightarrow> Inl f | Inr st1 \<Rightarrow> g (no_dest st1))"
  by (simp add: scan_no_dest split: sum.splits)

lemma case_quiet:
  "(case quiet r of Inl f \<Rightarrow> Inl f | Inr (j, st1) \<Rightarrow> g j st1) =
   (case r of Inl f \<Rightarrow> Inl f | Inr (j, st1) \<Rightarrow> g j (no_dest st1))"
  by (simp add: quiet_def split: sum.splits prod.splits)

lemma parse_no_dest:
  "parse_value len n (no_dest st) = quiet (parse_value len n st)"
  "parse_object len n (no_dest st) = quiet (parse_object len n st)"
  "parse_object_loop len n object (no_dest st) = quiet (parse_object_loop len n object st)"
  "parse_array len n (no_dest st) = quiet (parse_array len n st)"
  "parse_array_loop len n array (no_dest st) = quiet (parse_array_loop len n array st)"
proof (induction len n st and len n st and len n object st and len n st and len n array st
    rule: parse_value_parse_object_parse_object_loop_parse_array_parse_array_loop.induct)
  case (1 len n st)
  show ?case
    unfolding parse_value.simps [of len n "no_dest st"] parse_value.simps [of len n st]
    using 1
    by (simp add: quiet_simps no_dest_fields(1,2,4) report_no_dest Let_def
          sum.case_distrib [of quiet] prod.case_distrib [of quiet] option.case_distrib [of quiet]
          nat.case_distrib [of quiet] lex_value.case_distrib [of quiet] if_distrib [of quiet]
          no_dest_fields(3) [symmetric]
          cong: sum.case_cong prod.case_cong option.case_cong nat.case_cong lex_value.case_cong if_cong)
next
  case (2 len n st)
  show ?case
    unfolding parse_object.simps [of len n "no_dest st"] parse_object.simps [of len n st]
    using 2
    by (simp add: quiet_simps no_dest_fields(1,2,4) report_no_dest release_no_dest free_key_no_dest
          parse_object_end_no_dest parse_array_end_no_dest case_scan_no_dest case_quiet Let_def
          sum.case_distrib [of quiet] prod.case_distrib [of quiet] option.case_distrib [of quiet]
          nat.case_distrib [of quiet] lex_value.case_distrib [of quiet] if_distrib [of quiet]
          no_dest_fields(3) [symmetric]
          cong: sum.case_cong prod.case_cong option.case_cong nat.case_cong lex_value.case_cong if_cong)
next
  case (3 len n object st)
  have ih1: "parse_value len n (no_dest st3) = quiet (parse_value len n st3)"
    if "token (lxr st) = TOKEN_STRING" "value_string (val (lxr st)) = Inr (Some v)"
      "strdup (hp st) v = (Some key, h1)" "scan (st\<lparr>hp := h1\<rparr>) = Inr st2"
      "token (lxr st2) = tok_of CHR '':''" "scan st2 = Inr st3"
    for v key h1 st2 st3
    using that by (intro "3.IH"(1)) auto
  have ih2: "parse_object_loop len m object' (no_dest st7) = quiet (parse_object_loop len m object' st7)"
    if "token (lxr st) = TOKEN_STRING" "value_string (val (lxr st)) = Inr (Some v)"
      "strdup (hp st) v = (Some key, h1)" "scan (st\<lparr>hp := h1\<rparr>) = Inr st2"
      "token (lxr st2) = tok_of CHR '':''" "scan st2 = Inr st3"
      "parse_value len n st3 = Inr (Some v1, st4)"
      "json_object_set_nocheck (hp st4) object key v1 = (0, h5, object', v2)"
      "scan (free_key (release (st4\<lparr>hp := h5\<rparr>) v2) key) = Inr st6"
      "token (lxr st6) = tok_of CHR '',''" "scan st6 = Inr st7" "n = Suc m"
    for v key h1 st2 st3 v1 st4 h5 object' v2 st6 st7 m
    using that by (intro "3.IH"(2)) auto
  note unf = parse_object_loop.simps [of len n object "no_dest st"]
    parse_object_loop.simps [of len n object st]
  note ss = quiet_simps no_dest_fields(1,2,4) report_no_dest release_no_dest free_key_no_dest
    parse_object_end_no_dest scan_no_dest no_dest_fields(3) [symmetric]
  show ?case
  proof (cases "token (lxr st) = TOKEN_STRING")
    case False
    then show ?thesis unfolding unf by (simp add: ss)
  next
    case ts: True
    show ?thesis
    proof (cases "value_string (val (lxr st))")
      case (Inl f)
      with ts show ?thesis unfolding unf by (simp add: ss)
    next
      case (Inr p)
      show ?thesis
      proof (cases p)
        case None
        with ts Inr show ?thesis unfolding unf by (simp add: ss)
      next
        case (Some v)
        with Inr have vs: "value_string (val (lxr st)) = Inr (Some v)" by simp
        obtain k h1 where sd: "strdup (hp st) v = (k, h1)" by (cases "strdup (hp st) v")
        show ?thesis
        proof (cases k)
          case None
          with ts vs sd show ?thesis unfolding unf by (simp add: ss)
        next
          case (Some key)
          with sd have sd': "strdup (hp st) v = (Some key, h1)" by simp
          show ?thesis
          proof (cases "scan (st\<lparr>hp := h1\<rparr>)")
            case (Inl f)
            with ts vs sd' show ?thesis unfolding unf by (simp add: ss)
          next
            case s2: (Inr st2)
            show ?thesis
            proof (cases "token (lxr st2) = tok_of CHR '':''")
              case False
              with ts vs sd' s2 show ?thesis unfolding unf by (simp add: ss)
            next
              case colon: True
              show ?thesis
              proof (cases "scan st2")
                case (Inl f)
                with ts vs sd' s2 colon show ?thesis unfolding unf by (simp add: ss)
              next
                case s3: (Inr st3)
                note pv = ih1 [OF ts vs sd' s2 colon s3]
                show ?thesis
                proof (cases "parse_value len n st3")
                  case (Inl f)
                  with ts vs sd' s2 colon s3 pv show ?thesis unfolding unf by (simp add: ss)
                next
                  case (Inr r)
                  obtain j st4 where r: "r = (j, st4)" by (cases r)
                  show ?thesis
                  proof (cases j)
                    case None
                    with ts vs sd' s2 colon s3 pv Inr r show ?thesis unfolding unf by (simp add: ss)
                  next
                    case (Some v1)
                    with Inr r have p4: "parse_value len n st3 = Inr (Some v1, st4)" by simp
                    obtain rc h5 object' v2 where
                      set: "json_object_set_nocheck (hp st4) object key v1 = (rc, h5, object', v2)"
                      by (cases "json_object_set_nocheck (hp st4) object key v1")
                    show ?thesis
                    proof (cases "rc = 0")
                      case False
                      with ts vs sd' s2 colon s3 pv p4 set show ?thesis unfolding unf by (simp add: ss)
                    next
                      case True
                      with set have set': "json_object_set_nocheck (hp st4) object key v1 = (0, h5, object', v2)"
                        by simp
                      show ?thesis
                      proof (cases "scan (free_key (release (st4\<lparr>hp := h5\<rparr>) v2) key)")
                        case (Inl f)
                        with ts vs sd' s2 colon s3 pv p4 set' show ?thesis unfolding unf by (simp add: ss)
                      next
                        case s6: (Inr st6)
                        show ?thesis
                        proof (cases "token (lxr st6) = tok_of CHR '',''")
                          case False
                          with ts vs sd' s2 colon s3 pv p4 set' s6 show ?thesis
                            unfolding unf by (simp add: ss split: prod.splits)
                        next
                          case comma: True
                          show ?thesis
                          proof (cases "scan st6")
                            case (Inl f)
                            with ts vs sd' s2 colon s3 pv p4 set' s6 comma show ?thesis
                              unfolding unf by (simp add: ss)
                          next
                            case s7: (Inr st7)
                            show ?thesis
                            proof (cases n)
                              case 0
                              with ts vs sd' s2 colon s3 pv p4 set' s6 comma s7 show ?thesis
                                unfolding unf by (simp add: ss)
                            next
                              case (Suc m)
                              note lp = ih2 [OF ts vs sd' s2 colon s3 p4 set' s6 comma s7 Suc]
                              from ts vs sd' s2 colon s3 pv p4 set' s6 comma s7 Suc lp show ?thesis
                                unfolding unf by (simp add: ss)
                            qed
                          qed
                        qed
                      qed
                    qed
                  qed
                qed
              qed
            qed
          qed
        qed
      qed
    qed
  qed
next
  case (4 len n st)
  show ?case
    unfolding parse_array.simps [of len n "no_dest st"] parse_array.simps [of len n st]
    using 4
    by (simp add: quiet_simps no_dest_fields(1,2,4) report_no_dest release_no_dest free_key_no_dest
          parse_object_end_no_dest parse_array_end_no_dest case_scan_no_dest case_quiet Let_def
          sum.case_distrib [of quiet] prod.case_distrib [of quiet] option.case_distrib [of quiet]
          nat.case_distrib [of quiet] lex_value.case_distrib [of quiet] if_distrib [of quiet]
          no_dest_fields(3) [symmetric]
          cong: sum.case_cong prod.case_cong option.case_cong nat.case_cong lex_value.case_cong if_cong)
next
  case (5 len n array st)
  have ih1: "parse_value len n (no_dest st) = quiet (parse_value len n st)"
    if "token (lxr st) \<noteq> 0"
    using that by (intro "5.IH"(1)) auto
  have ih2: "parse_array_loop len m array' (no_dest st4) = quiet (parse_array_loop len m array' st4)"
    if "token (lxr st) \<noteq> 0" "parse_value len n st = Inr (Some elem, st1)"
      "json_array_append (hp st1) array elem = (0, h2, array', elem')"
      "scan (release (st1\<lparr>hp := h2\<rparr>) elem') = Inr st3"
      "token (lxr st3) = tok_of CHR '',''" "scan st3 = Inr st4" "n = Suc m"
    for elem st1 h2 array' elem' st3 st4 m
    using that by (intro "5.IH"(2)) auto
  note unf = parse_array_loop.simps [of len n array "no_dest st"]
    parse_array_loop.simps [of len n array st]
  note ss = quiet_simps no_dest_fields(1,2,4) report_no_dest release_no_dest free_key_no_dest
    parse_array_end_no_dest scan_no_dest no_dest_fields(3) [symmetric]
  show ?case
  proof (cases "token (lxr st) = 0")
    case True
    then show ?thesis unfolding unf by (simp add: ss split: prod.splits)
  next
    case nz: False
    note pv = ih1 [OF nz]
    show ?thesis
    proof (cases "parse_value len n st")
      case (Inl f)
      with nz pv show ?thesis unfolding unf by (simp add: ss)
    next
      case (Inr r)
      obtain j st1 where r: "r = (j, st1)" by (cases r)
      show ?thesis
      proof (cases j)
        case None
        with nz pv Inr r show ?thesis unfolding unf by (simp add: ss)
      next
        case (Some elem)
        with Inr r have p1: "parse_value len n st = Inr (Some elem, st1)" by simp
        obtain rc h2 array' elem' where
          app: "json_array_append (hp st1) array elem = (rc, h2, array', elem')"
          by (cases "json_array_append (hp st1) array elem")
        show ?thesis
        proof (cases "rc = 0")
          case False
          with nz pv p1 app show ?thesis unfolding unf by (simp add: ss)
        next
          case True
          with app have app': "json_array_append (hp st1) array elem = (0, h2, array', elem')" by simp
          show ?thesis
          proof (cases "scan (release (st1\<lparr>hp := h2\<rparr>) elem')")
            case (Inl f)
            with nz pv p1 app' show ?thesis unfolding unf by (simp add: ss)
          next
            case s3: (Inr st3)
            show ?thesis
            proof (cases "token (lxr st3) = tok_of CHR '',''")
              case False
              with nz pv p1 app' s3 show ?thesis unfolding unf by (simp add: ss split: prod.splits)
            next
              case comma: True
              show ?thesis
              proof (cases "scan st3")
                case (Inl f)
                with nz pv p1 app' s3 comma show ?thesis unfolding unf by (simp add: ss)
              next
                case s4: (Inr st4)
                show ?thesis
                proof (cases n)
                  case 0
                  with nz pv p1 app' s3 comma s4 show ?thesis unfolding unf by (simp add: ss)
                next
                  case (Suc m)
                  note lp = ih2 [OF nz p1 app' s3 comma s4 Suc]
                  from nz pv p1 app' s3 comma s4 Suc lp show ?thesis unfolding unf by (simp add: ss)
                qed
              qed
            qed
          qed
        qed
      qed
    qed
  qed
qed

lemma parse_json_no_dest: "parse_json len n (no_dest st) = quiet (parse_json len n st)"
proof (cases "scan st")
  case (Inl f)
  then show ?thesis by (simp add: parse_json_def scan_no_dest quiet_simps)
next
  case (Inr st1)
  then show ?thesis
    by (simp add: parse_json_def scan_no_dest quiet_simps no_dest_fields(2) report_no_dest parse_no_dest(1))
qed

definition without_diagnostic ::
    "fault + (json_t option \<times> heap \<times> json_error_t option) \<Rightarrow>
     fault + (json_t option \<times> heap \<times> json_error_t option)" where
  "without_diagnostic r = (case r of Inl f \<Rightarrow> Inl f | Inr (j, h, e) \<Rightarrow> Inr (j, h, None))"

lemma no_dest_start: "\<lparr>hp = h, lxr = lx, err = None\<rparr> = no_dest \<lparr>hp = h, lxr = lx, err = error\<rparr>"
  by (simp add: no_dest_def)

lemma err_no_dest: "err (no_dest st) = None"
  by (simp add: no_dest_def)

lemma json_loadf_no_dest:
  "json_loadf nd len n h input None = without_diagnostic (json_loadf nd len n h input error)"
proof -
  obtain rc h1 lx where i: "lex_init h (lex_auto nd) input = (rc, h1, lx)"
    by (cases "lex_init h (lex_auto nd) input")
  show ?thesis
  proof (cases "rc = 0")
    case False
    with i show ?thesis by (simp add: json_loadf_def without_diagnostic_def)
  next
    case True
    show ?thesis
    proof (cases "parse_json len n \<lparr>hp = h1, lxr = lx, err = error\<rparr>")
      case (Inl f)
      with i True show ?thesis
        by (simp add: json_loadf_def without_diagnostic_def no_dest_start [of h1 lx error]
              parse_json_no_dest quiet_simps)
    next
      case (Inr r)
      obtain j st where r: "r = (j, st)" by (cases r)
      with Inr i True show ?thesis
        by (simp add: json_loadf_def without_diagnostic_def no_dest_start [of h1 lx error]
              parse_json_no_dest quiet_simps no_dest_fields(1,2) err_no_dest split: sum.splits)
    qed
  qed
qed

lemma json_loads_no_dest:
  "json_loads nd len n h string None = without_diagnostic (json_loads nd len n h string error)"
proof -
  obtain rc h1 lx where i: "lex_init h (lex_auto nd) (StringData string 0) = (rc, h1, lx)"
    by (cases "lex_init h (lex_auto nd) (StringData string 0)")
  show ?thesis
  proof (cases "rc = 0")
    case False
    with i show ?thesis by (simp add: json_loads_def without_diagnostic_def)
  next
    case True
    show ?thesis
    proof (cases "parse_json len n \<lparr>hp = h1, lxr = lx, err = error\<rparr>")
      case (Inl f)
      with i True show ?thesis
        by (simp add: json_loads_def without_diagnostic_def no_dest_start [of h1 lx error]
              parse_json_no_dest quiet_simps)
    next
      case (Inr r)
      obtain j st where r: "r = (j, st)" by (cases r)
      show ?thesis
      proof (cases j)
        case None
        with r Inr i True show ?thesis
          by (simp add: json_loads_def without_diagnostic_def no_dest_start [of h1 lx error]
                parse_json_no_dest quiet_simps no_dest_fields(1,2) err_no_dest split: sum.splits)
      next
        case (Some result)
        show ?thesis
        proof (cases "scan st")
          case (Inl f)
          with Some r Inr i True show ?thesis
            by (simp add: json_loads_def without_diagnostic_def no_dest_start [of h1 lx error]
                  parse_json_no_dest quiet_simps scan_no_dest)
        next
          case s1: (Inr st1)
          with Some r Inr i True show ?thesis
            by (simp add: json_loads_def without_diagnostic_def no_dest_start [of h1 lx error]
                  parse_json_no_dest quiet_simps scan_no_dest no_dest_fields(1,2) err_no_dest
                  report_no_dest release_no_dest Let_def split: sum.splits)
        qed
      qed
    qed
  qed
qed

text \<open>Cutting a text that starts with a message already cut to the same length.\<close>

lemma take_take_append: "take n (take n xs @ ys) = take n (xs @ ys)"
  by (cases "n \<le> length xs") simp_all

text \<open>
  C8 as the spec states it: with a destination and a lexer, the text of the diagnostic is
  the message, \<^verbatim>\<open> near '\<close>, the raw text of the token and \<^verbatim>\<open>'\<close> whenever the raw text is not
  empty. With \<^verbatim>\<open>JSON_ERROR_TEXT_LENGTH\<close> at 160 and a raw text of 200 letters the text that
  \<^verbatim>\<open>error_set\<close> stores is another one; and so it is for the raw text that consists of the
  zero byte which the lexer saves for a malformed byte.
\<close>

theorem error_set_truncates:
  "error_set 160 (Some blank_error) (Some (lex_at (replicate 200 (CHR ''a'')) 1)) ''invalid token'' \<noteq>
     Some \<lparr>error_line = 1, error_text = ''invalid token near '' @ [sq] @ replicate 200 (CHR ''a'') @ [sq]\<rparr>
   \<and> error_set 160 (Some blank_error) (Some (lex_at [CHR 0x00] 1)) ''invalid token'' \<noteq>
     Some \<lparr>error_line = 1, error_text = ''invalid token near '' @ [sq, CHR 0x00, sq]\<rparr>"
  by code_simp

text \<open>What \<^verbatim>\<open>error_set\<close> stores in these two cases.\<close>

lemma error_set_truncated_text:
  "error_set 160 (Some blank_error) (Some (lex_at (replicate 200 (CHR ''a'')) 1)) ''invalid token'' =
     Some \<lparr>error_line = 1, error_text = ''invalid token near '' @ [sq] @ replicate 139 (CHR ''a'')\<rparr>"
  "error_set 160 (Some blank_error) (Some (lex_at [CHR 0x00] 1)) ''invalid token'' =
     Some \<lparr>error_line = 1, error_text = ''invalid token near end of file''\<rparr>"
  by code_simp+

text \<open>
  C8, amended: given a destination, a message and a lexer, \<^verbatim>\<open>error_set\<close> stores the line of
  the lexer and the first \<^verbatim>\<open>JSON_ERROR_TEXT_LENGTH - 1\<close> bytes of
  \<^verbatim>\<open><message> near '<raw text>'\<close> when the raw text of the token is not empty and holds no
  zero byte, and of \<^verbatim>\<open><message> near end of file\<close> when it is empty; without a lexer it
  stores the line \<open>-1\<close> and the first \<^verbatim>\<open>JSON_ERROR_TEXT_LENGTH - 1\<close> bytes of the message;
  with a null destination it does nothing, and \<^verbatim>\<open>json_loadf\<close> and \<^verbatim>\<open>json_loads\<close> called with
  a null destination return what they return with a destination, the diagnostic apart,
  whatever the input. The message is a C string and \<^verbatim>\<open>JSON_ERROR_TEXT_LENGTH\<close> is positive.
\<close>

theorem error_set_format:
  assumes "0 < len" and "CHR 0x00 \<notin> set msg"
  shows "error_set len None lxo msg = None
       \<and> json_loadf nd len n h input None = without_diagnostic (json_loadf nd len n h input (Some e))
       \<and> json_loads nd len n h string None = without_diagnostic (json_loads nd len n h string (Some e))
       \<and> (saved_text lx \<noteq> [] \<and> CHR 0x00 \<notin> set (saved_text lx) \<longrightarrow>
            error_set len (Some e) (Some lx) msg =
              Some (e\<lparr>error_line := line lx,
                      error_text := take (len - 1) (msg @ '' near '' @ [sq] @ saved_text lx @ [sq])\<rparr>))
       \<and> (saved_text lx = [] \<longrightarrow>
            error_set len (Some e) (Some lx) msg =
              Some (e\<lparr>error_line := line lx, error_text := take (len - 1) (msg @ '' near end of file'')\<rparr>))
       \<and> error_set len (Some e) None msg =
            Some (e\<lparr>error_line := - 1, error_text := take (len - 1) msg\<rparr>)"
proof -
  have a: "error_set len None lxo msg = None" by (simp add: error_set_def)
  have b: "error_set len (Some e) (Some lx) msg =
              Some (e\<lparr>error_line := line lx,
                      error_text := take (len - 1) (msg @ '' near '' @ [sq] @ saved_text lx @ [sq])\<rparr>)"
    if "saved_text lx \<noteq> []" "CHR 0x00 \<notin> set (saved_text lx)"
    using that assms
    by (simp add: error_set_def snprintf_def Let_def c_str_id sq_def take_take_append del: take_append)
  have c: "error_set len (Some e) (Some lx) msg =
              Some (e\<lparr>error_line := line lx, error_text := take (len - 1) (msg @ '' near end of file'')\<rparr>)"
    if "saved_text lx = []"
  proof -
    from that have "c_str (saved_text lx) = []" by (simp add: c_str_def)
    with assms show ?thesis
      by (simp add: error_set_def snprintf_def Let_def c_str_id take_take_append del: take_append)
  qed
  have d: "error_set len (Some e) None msg = Some (e\<lparr>error_line := - 1, error_text := take (len - 1) msg\<rparr>)"
    using assms by (simp add: error_set_def snprintf_def Let_def c_str_id)
  from a b c d json_loadf_no_dest [of nd len n h input "Some e"]
    json_loads_no_dest [of nd len n h string "Some e"]
  show ?thesis by blast
qed

lemma missing_comma_reported:
  "json_loadf False 160 2 empty_heap (File ''[1 2]'' False) (Some blank_error) =
     Inr (None, empty_heap,
          Some \<lparr>error_line = 1, error_text = [sq] @ '']'' @ [sq] @ '' expected near '' @ [sq] @ ''2'' @ [sq]\<rparr>)"
  "json_loads False 160 2 empty_heap (''[1 2]'' @ [CHR 0x00]) (Some blank_error) =
     Inr (None, empty_heap,
          Some \<lparr>error_line = 1, error_text = [sq] @ '']'' @ [sq] @ '' expected near '' @ [sq] @ ''2'' @ [sq]\<rparr>)"
  by code_simp+

theorem error_set_format_witness:
  "error_set 160 None (Some (lex_at ''}'' 1)) ''unexpected token'' = None
   \<and> json_loadf False 160 2 empty_heap (File ''[1 2]'' False) None = Inr (None, empty_heap, None)
   \<and> json_loads False 160 2 empty_heap (''[1 2]'' @ [CHR 0x00]) None = Inr (None, empty_heap, None)
   \<and> error_set 160 (Some blank_error) (Some (lex_at ''}'' 1)) ''unexpected token'' =
       Some \<lparr>error_line = 1, error_text = ''unexpected token near '' @ [sq] @ ''}'' @ [sq]\<rparr>
   \<and> error_set 160 (Some blank_error) (Some (lex_at [] 3)) ''unexpected token'' =
       Some \<lparr>error_line = 3, error_text = ''unexpected token near end of file''\<rparr>
   \<and> error_set 160 (Some blank_error) None ''unable to open x: y'' =
       Some \<lparr>error_line = - 1, error_text = ''unable to open x: y''\<rparr>
   \<and> error_set 12 (Some blank_error) (Some (lex_at ''}'' 1)) ''unexpected token'' =
       Some \<lparr>error_line = 1, error_text = ''unexpected ''\<rparr>"
  using error_set_format [of 160 "''unexpected token''" "Some (lex_at ''}'' 1)" False 2 empty_heap
            "File ''[1 2]'' False" blank_error "''[1 2]'' @ [CHR 0x00]" "lex_at ''}'' 1"]
    error_set_format [of 160 "''unexpected token''" None False 2 empty_heap
            "File ''[1 2]'' False" blank_error "''[1 2]'' @ [CHR 0x00]" "lex_at [] 3"]
    error_set_format [of 160 "''unable to open x: y''" None False 2 empty_heap
            "File ''[1 2]'' False" blank_error "''[1 2]'' @ [CHR 0x00]" "lex_at [] 3"]
    error_set_format [of 12 "''unexpected token''" None False 2 empty_heap
            "File ''[1 2]'' False" blank_error "''[1 2]'' @ [CHR 0x00]" "lex_at ''}'' 1"]
    missing_comma_reported
  by (simp add: lex_at_def lex_auto_def blank_error_def sq_def without_diagnostic_def)


section \<open>String literals\<close>

text \<open>The reads and the push-back change the stream and the saved text only.\<close>

lemma stream_fill_ndebug: "stream_fill i n s = Inr s' \<Longrightarrow> ndebug s' = ndebug s"
  by (induction n arbitrary: i s) (auto split: sum.splits prod.splits)

lemma stream_ret_ndebug: "stream_ret s = Inr (c, s') \<Longrightarrow> ndebug s' = ndebug s"
  by (auto simp: stream_ret_def split: sum.splits)

lemma stream_get_ndebug: "stream_get s = Inr (c, s') \<Longrightarrow> ndebug s' = ndebug s"
  by (auto simp: stream_get_def Let_def split: sum.splits if_splits prod.splits
        dest!: stream_fill_ndebug stream_ret_ndebug)

lemma stream_unget_ndebug: "stream_unget s c = Inr s' \<Longrightarrow> ndebug s' = ndebug s"
  by (auto simp: stream_unget_def Let_def split: sum.splits if_splits)

lemma lex_get_save_fields:
  "lex_get_save lx = Inr (c, lx1) \<Longrightarrow>
     saved_text lx1 = saved_text lx @ [c] \<and> token lx1 = token lx \<and> val lx1 = val lx \<and>
     line lx1 = line lx \<and> ndebug (stream lx1) = ndebug (stream lx)"
  by (auto simp: lex_get_save_def lex_save_def split: sum.splits dest: stream_get_ndebug)

lemma lex_get_fields:
  "lex_get lx = Inr (c, lx1) \<Longrightarrow>
     saved_text lx1 = saved_text lx \<and> token lx1 = token lx \<and> val lx1 = val lx \<and>
     line lx1 = line lx \<and> ndebug (stream lx1) = ndebug (stream lx)"
  by (auto simp: lex_get_def split: sum.splits dest: stream_get_ndebug)

lemma lex_unget_unsave_fields:
  "lex_unget_unsave lx c = Inr lx1 \<Longrightarrow>
     saved_text lx1 = butlast (saved_text lx) \<and> token lx1 = token lx \<and> val lx1 = val lx \<and>
     line lx1 = line lx \<and> ndebug (stream lx1) = ndebug (stream lx)"
  by (auto simp: lex_unget_unsave_def strbuffer_pop_def split: sum.splits if_splits prod.splits
        dest: stream_unget_ndebug)

text \<open>
  A string literal between its quotes, as a list of items: a byte that stands for itself,
  one of the eight two-character escapes, or \<^verbatim>\<open>\u\<close> with four hexadecimal digits.
  \<open>render\<close> gives the text of the items, \<open>decode_item\<close> the byte that a plain byte or an
  escape stands for. \<open>escape_table\<close> is the table of JSON: the byte behind the backslash
  and the byte that the pair stands for, \<^verbatim>\<open>\"\<close>, \<^verbatim>\<open>\\\<close> and \<^verbatim>\<open>\/\<close> for the byte itself, \<^verbatim>\<open>\b\<close> for
  backspace (8), \<^verbatim>\<open>\f\<close> for form feed (12), \<^verbatim>\<open>\n\<close> for line feed (10), \<^verbatim>\<open>\r\<close> for carriage
  return (13) and \<^verbatim>\<open>\t\<close> for tab (9). It is written down here and not taken from the
  decoding pass of the program, which is compared with it below.
\<close>

datatype item = Plain char | Esc char | Uni char char char char

definition escape_table :: "(char \<times> char) list" where
  "escape_table =
     [(CHR 0x22, CHR 0x22), (CHR 0x5C, CHR 0x5C), (CHR ''/'', CHR ''/''), (CHR ''b'', CHR 0x08),
      (CHR ''f'', CHR 0x0C), (CHR ''n'', CHR 0x0A), (CHR ''r'', CHR 0x0D), (CHR ''t'', CHR 0x09)]"

fun render_item :: "item \<Rightarrow> char list" where
  "render_item (Plain c) = [c]"
| "render_item (Esc e) = [bs, e]"
| "render_item (Uni a b c d) = [bs, CHR ''u'', a, b, c, d]"

definition render :: "item list \<Rightarrow> char list" where
  "render items = concat (map render_item items)"

fun valid_item :: "item \<Rightarrow> bool" where
  "valid_item (Plain c) = (c \<noteq> dq \<and> c \<noteq> bs \<and> \<not> (0 \<le> schar c \<and> schar c \<le> 0x1F))"
| "valid_item (Esc e) = (map_of escape_table e \<noteq> None)"
| "valid_item (Uni a b c d) = (isxdigit a \<and> isxdigit b \<and> isxdigit c \<and> isxdigit d)"

fun is_uni :: "item \<Rightarrow> bool" where
  "is_uni (Uni a b c d) = True"
| "is_uni _ = False"

fun decode_item :: "item \<Rightarrow> char" where
  "decode_item (Plain c) = c"
| "decode_item (Esc e) = (case map_of escape_table e of Some d \<Rightarrow> d | None \<Rightarrow> e)"
| "decode_item (Uni a b c d) = CHR ''u''"

lemma render_Nil: "render [] = []" by (simp add: render_def)
lemma render_Cons: "render (i # items) = render_item i @ render items" by (simp add: render_def)
lemma render_append: "render (xs @ ys) = render xs @ render ys" by (simp add: render_def)

text \<open>The raw scan and the decoding pass agree with the table: \<open>is_escape\<close> accepts the
  bytes of its left column, and \<open>unescape\<close> gives the byte of its right column.\<close>

lemma escape_table_unescape:
  "map_of escape_table e = Some d \<Longrightarrow> e \<noteq> CHR ''u'' \<and> unescape e = Some d \<and> is_escape e"
  by (auto simp: escape_table_def unescape_def is_escape_def split: if_splits)

lemma is_escape_escape_table: "is_escape e \<Longrightarrow> map_of escape_table e \<noteq> None"
  by (auto simp: escape_table_def is_escape_def)

lemma decode_render:
  "list_all valid_item items \<Longrightarrow>
     decode nd (render items @ dq # rest) =
       Inr (if list_ex is_uni items then None else Some (map decode_item items))"
proof (induction items)
  case Nil
  then show ?case by (simp add: render_Nil dq_def)
next
  case (Cons i items)
  then have IH: "decode nd (render items @ dq # rest) =
       Inr (if list_ex is_uni items then None else Some (map decode_item items))"
    by simp
  show ?case
  proof (cases i)
    case (Plain c)
    with Cons.prems IH show ?thesis by (simp add: render_Cons dq_def bs_def)
  next
    case (Esc e)
    with Cons.prems obtain d where d: "map_of escape_table e = Some d" by auto
    from escape_table_unescape [OF d] have "e \<noteq> CHR ''u''" "unescape e = Some d" by simp_all
    with Esc IH d show ?thesis by (simp add: render_Cons dq_def bs_def)
  next
    case (Uni a b c d)
    then show ?thesis by (simp add: render_Cons dq_def bs_def)
  qed
qed

lemma decode_length: "decode nd p = Inr (Some t) \<Longrightarrow> length t < length p"
proof (induction nd p arbitrary: t rule: decode.induct)
  case (1 nd)
  then show ?case by simp
next
  case (2 nd c p)
  show ?case
  proof (cases "c = CHR 0x22")
    case True
    with 2 show ?thesis by simp
  next
    case nq: False
    show ?thesis
    proof (cases "c = CHR 0x5C")
      case False
      with nq 2 show ?thesis
        by (auto split: sum.splits option.splits)
    next
      case True
      with nq 2 show ?thesis
        by (auto split: sum.splits option.splits list.splits if_splits) fastforce+
    qed
  qed
qed


definition same_fields :: "lex_t \<Rightarrow> lex_t \<Rightarrow> bool" where
  "same_fields lx lx' = (token lx' = token lx \<and> val lx' = val lx \<and> line lx' = line lx \<and>
                         ndebug (stream lx') = ndebug (stream lx))"

lemma lex_hex_shape:
  "lex_hex n lx = Inr (True, lx') \<Longrightarrow>
     \<exists>hs. length hs = n \<and> list_all isxdigit hs \<and> saved_text lx' = saved_text lx @ hs \<and> same_fields lx lx'"
proof (induction n arbitrary: lx)
  case 0
  then show ?case by (simp add: same_fields_def)
next
  case (Suc n)
  from Suc.prems obtain c lx1 where g: "lex_get_save lx = Inr (c, lx1)"
    and x: "isxdigit c" and r: "lex_hex n lx1 = Inr (True, lx')"
    by (auto split: sum.splits if_splits)
  from Suc.IH [OF r] obtain hs where hs: "length hs = n" "list_all isxdigit hs"
    "saved_text lx' = saved_text lx1 @ hs" "same_fields lx1 lx'" by blast
  with lex_get_save_fields [OF g] x show ?case
    by (intro exI [of _ "c # hs"]) (simp add: same_fields_def)
qed

lemma lex_string_raw_shape:
  "lex_string_raw lx = Inr (True, lx') \<Longrightarrow>
     \<exists>items. list_all valid_item items \<and> saved_text lx' = saved_text lx @ render items @ [dq] \<and>
             same_fields lx lx'"
proof (induction lx rule: lex_string_raw.induct)
  case (1 lx)
  from "1.prems" obtain c lx1 where g: "lex_get_save lx = Inr (c, lx1)"
    by (subst (asm) lex_string_raw.simps) (auto split: sum.splits)
  note f1 = lex_get_save_fields [OF g]
  show ?case
  proof (cases "c = CHR 0x22")
    case True
    with "1.prems" g have "lx' = lx1"
      by (subst (asm) lex_string_raw.simps) simp
    with f1 True show ?thesis
      by (intro exI [of _ "[]"]) (simp add: render_Nil dq_def same_fields_def)
  next
    case nq: False
    from "1.prems" g nq obtain at_end where
      e: "(if schar c = EOF then lex_eof lx1 else Inr False) = Inr at_end"
      by (subst (asm) lex_string_raw.simps) (auto split: sum.splits)
    from "1.prems" g nq e have ne: "\<not> at_end"
      by (subst (asm) lex_string_raw.simps) (auto split: sum.splits if_splits)
    from "1.prems" g nq e ne have nc: "\<not> (0 \<le> schar c \<and> schar c \<le> 0x1F)"
      by (subst (asm) lex_string_raw.simps) (auto split: sum.splits if_splits)
    show ?thesis
    proof (cases "c = CHR 0x5C")
      case False
      with "1.prems" g nq e ne nc have r: "lex_string_raw lx1 = Inr (True, lx')"
        by (subst (asm) lex_string_raw.simps) (simp split: sum.splits)
      from "1.IH"(3) [OF g refl nq e ne nc False r]
      obtain items where items: "list_all valid_item items"
        "saved_text lx' = saved_text lx1 @ render items @ [dq]" "same_fields lx1 lx'" by blast
      with f1 nq False nc show ?thesis
        by (intro exI [of _ "Plain c # items"]) (simp add: render_Cons dq_def bs_def same_fields_def)
    next
      case True
      from "1.prems" g nq e ne nc True obtain c2 lx2 where g2: "lex_get_save lx1 = Inr (c2, lx2)"
        by (subst (asm) lex_string_raw.simps) (auto split: sum.splits)
      note f2 = lex_get_save_fields [OF g2]
      show ?thesis
      proof (cases "c2 = CHR ''u''")
        case u: True
        from "1.prems" g nq e ne nc True g2 u obtain lx3 where
          h: "lex_hex 4 lx2 = Inr (True, lx3)" and r: "lex_string_raw lx3 = Inr (True, lx')"
          by (subst (asm) lex_string_raw.simps) (auto split: sum.splits if_splits)
        from lex_hex_shape [OF h] obtain hs where hs: "length hs = 4" "list_all isxdigit hs"
          "saved_text lx3 = saved_text lx2 @ hs" "same_fields lx2 lx3" by blast
        then obtain a b c' d where abcd: "hs = [a, b, c', d]"
          by (auto simp: length_Suc_conv numeral_eq_Suc)
        from "1.IH"(1) [OF g refl nq e ne nc True g2 refl u h refl _ r]
        obtain items where items: "list_all valid_item items"
          "saved_text lx' = saved_text lx3 @ render items @ [dq]" "same_fields lx3 lx'" by auto
        with f1 f2 hs abcd True u show ?thesis
          by (intro exI [of _ "Uni a b c' d # items"])
             (simp add: render_Cons dq_def bs_def same_fields_def)
      next
        case nu: False
        from "1.prems" g nq e ne nc True g2 nu have esc: "is_escape c2"
          and r: "lex_string_raw lx2 = Inr (True, lx')"
          by (subst (asm) lex_string_raw.simps, auto split: sum.splits if_splits)+
        from "1.IH"(2) [OF g refl nq e ne nc True g2 refl nu esc r]
        obtain items where items: "list_all valid_item items"
          "saved_text lx' = saved_text lx2 @ render items @ [dq]" "same_fields lx2 lx'" by blast
        with f1 f2 True is_escape_escape_table [OF esc] show ?thesis
          by (intro exI [of _ "Esc c2 # items"])
             (simp add: render_Cons dq_def bs_def same_fields_def)
      qed
    qed
  qed
qed


lemma same_fields_refl: "same_fields lx lx"
  by (simp add: same_fields_def)

lemma same_fields_trans: "same_fields a b \<Longrightarrow> same_fields b c \<Longrightarrow> same_fields a c"
  by (simp add: same_fields_def)

lemma lex_get_save_same: "lex_get_save lx = Inr (c, lx1) \<Longrightarrow> same_fields lx lx1"
  by (simp add: same_fields_def lex_get_save_fields)

lemma lex_get_same: "lex_get lx = Inr (c, lx1) \<Longrightarrow> same_fields lx lx1"
  by (simp add: same_fields_def lex_get_fields)

lemma lex_unget_unsave_same: "lex_unget_unsave lx c = Inr lx1 \<Longrightarrow> same_fields lx lx1"
  by (simp add: same_fields_def lex_unget_unsave_fields)

lemma lex_hex_same: "lex_hex n lx = Inr (b, lx') \<Longrightarrow> same_fields lx lx'"
proof (induction n arbitrary: lx)
  case 0
  then show ?case by (simp add: same_fields_def)
next
  case (Suc n)
  then show ?case
    by (auto split: sum.splits if_splits
          intro: same_fields_trans dest!: lex_get_save_same lex_unget_unsave_same)
qed

lemma lex_string_raw_same: "lex_string_raw lx = Inr (b, lx') \<Longrightarrow> same_fields lx lx'"
proof (induction lx rule: lex_string_raw.induct)
  case (1 lx)
  from "1.prems" obtain c lx1 where g: "lex_get_save lx = Inr (c, lx1)"
    by (subst (asm) lex_string_raw.simps) (auto split: sum.splits)
  note s1 = lex_get_save_same [OF g]
  show ?case
  proof (cases "c = CHR 0x22")
    case True
    with "1.prems" g s1 show ?thesis
      by (subst (asm) lex_string_raw.simps) auto
  next
    case nq: False
    from "1.prems" g nq obtain at_end where
      e: "(if schar c = EOF then lex_eof lx1 else Inr False) = Inr at_end"
      by (subst (asm) lex_string_raw.simps) (auto split: sum.splits)
    show ?thesis
    proof (cases at_end)
      case True
      with "1.prems" g nq e s1 show ?thesis
        by (subst (asm) lex_string_raw.simps) auto
    next
      case ne: False
      show ?thesis
      proof (cases "0 \<le> schar c \<and> schar c \<le> 0x1F")
        case True
        with "1.prems" g nq e ne s1 show ?thesis
          by (subst (asm) lex_string_raw.simps)
             (auto split: sum.splits intro: same_fields_trans dest!: lex_unget_unsave_same)
      next
        case nc: False
        show ?thesis
        proof (cases "c = CHR 0x5C")
          case False
          with "1.prems" g nq e ne nc have r: "lex_string_raw lx1 = Inr (b, lx')"
            by (subst (asm) lex_string_raw.simps) (simp split: sum.splits)
          from "1.IH"(3) [OF g refl nq e ne nc False r] s1 show ?thesis
            by (rule same_fields_trans [rotated])
        next
          case True
          from "1.prems" g nq e ne nc True obtain c2 lx2 where g2: "lex_get_save lx1 = Inr (c2, lx2)"
            by (subst (asm) lex_string_raw.simps) (auto simp: schar_def split: sum.splits)
          from s1 lex_get_save_same [OF g2] have s2: "same_fields lx lx2"
            by (rule same_fields_trans)
          show ?thesis
          proof (cases "c2 = CHR ''u''")
            case u: True
            from "1.prems" g nq e ne nc True g2 u obtain ok lx3 where
              h: "lex_hex 4 lx2 = Inr (ok, lx3)"
              by (subst (asm) lex_string_raw.simps) (auto simp: schar_def split: sum.splits)
            from s2 lex_hex_same [OF h] have s3: "same_fields lx lx3"
              by (rule same_fields_trans)
            show ?thesis
            proof (cases ok)
              case True
              with "1.prems" g nq e ne nc \<open>c = CHR 0x5C\<close> g2 u h
              have r: "lex_string_raw lx3 = Inr (b, lx')"
                by (subst (asm) lex_string_raw.simps) (simp add: schar_def)
              from "1.IH"(1) [OF g refl nq e ne nc \<open>c = CHR 0x5C\<close> g2 refl u h refl True r] s3
              show ?thesis by (rule same_fields_trans [rotated])
            next
              case False
              with "1.prems" g nq e ne nc \<open>c = CHR 0x5C\<close> g2 u h s3 show ?thesis
                by (subst (asm) lex_string_raw.simps) (auto simp: schar_def)
            qed
          next
            case nu: False
            show ?thesis
            proof (cases "is_escape c2")
              case True
              with "1.prems" g nq e ne nc \<open>c = CHR 0x5C\<close> g2 nu
              have r: "lex_string_raw lx2 = Inr (b, lx')"
                by (subst (asm) lex_string_raw.simps) (simp add: schar_def)
              from "1.IH"(2) [OF g refl nq e ne nc \<open>c = CHR 0x5C\<close> g2 refl nu True r] s2
              show ?thesis by (rule same_fields_trans [rotated])
            next
              case False
              with "1.prems" g nq e ne nc \<open>c = CHR 0x5C\<close> g2 nu s2 show ?thesis
                by (subst (asm) lex_string_raw.simps)
                   (auto simp: schar_def split: sum.splits intro: same_fields_trans dest!: lex_unget_unsave_same)
            qed
          qed
        qed
      qed
    qed
  qed
qed

lemma render_item_no_zero: "valid_item i \<Longrightarrow> CHR 0x00 \<notin> set (render_item i)"
  by (cases i) (auto simp: dq_def bs_def schar_def escape_table_def isxdigit_def isdigit_def in_range_def
        split: if_splits)

lemma render_no_zero: "list_all valid_item items \<Longrightarrow> CHR 0x00 \<notin> set (render items)"
  by (induction items) (auto simp: render_Nil render_Cons dest: render_item_no_zero)

lemma c_str_literal:
  "list_all valid_item items \<Longrightarrow> c_str (dq # render items @ [dq]) = dq # render items @ [dq]"
  by (rule c_str_id) (auto simp: dq_def dest: render_no_zero)

lemma length_render: "length items \<le> length (render items)"
proof (induction items)
  case Nil
  then show ?case by simp
next
  case (Cons i items)
  then show ?case by (cases i) (simp_all add: render_Cons)
qed

definition raw_accepts :: "lex_t \<Rightarrow> bool" where
  "raw_accepts lx =
     (case lex_string_raw (lx\<lparr>token := TOKEN_INVALID\<rparr>) of
        Inr (closed, lx1) \<Rightarrow> closed
      | Inl f \<Rightarrow> False)"

lemma lex_scan_string_cases:
  assumes "lex_scan_string h lx = Inr (h', lx')"
  obtains (stopped) lx1 where "lex_string_raw (lx\<lparr>token := TOKEN_INVALID\<rparr>) = Inr (False, lx1)"
      "lx' = lx1" "h' = h"
  | (closed) lx1 where "lex_string_raw (lx\<lparr>token := TOKEN_INVALID\<rparr>) = Inr (True, lx1)"
      "saved_text lx' = saved_text lx1"
      "(\<exists>h1. malloc h = (False, h1) \<and> h' = h1 \<and> lx' = lx1\<lparr>val := VString None\<rparr>)
       \<or> (\<exists>h1. malloc h = (True, h1) \<and>
             decode (ndebug (stream lx1)) (drop 1 (c_str (saved_text lx1))) = Inr None \<and>
             h' = free h1 (Some []) \<and> lx' = lx1\<lparr>val := VString None\<rparr>)
       \<or> (\<exists>h1 t. malloc h = (True, h1) \<and>
             decode (ndebug (stream lx1)) (drop 1 (c_str (saved_text lx1))) = Inr (Some t) \<and>
             h' = h1 \<and> lx' = lx1\<lparr>val := VString (Some t), token := TOKEN_STRING\<rparr>)"
  using assms
  by (auto simp: lex_scan_string_def split: sum.splits prod.splits if_splits option.splits)


text \<open>A lexer that has just read the opening quote of a string from a file, and what
  \<^verbatim>\<open>lex_scan_string\<close> makes of it.\<close>

definition string_lex :: "bool \<Rightarrow> char list \<Rightarrow> lex_t" where
  "string_lex nd bytes = (lxr (start nd (File bytes False)))\<lparr>saved_text := [dq]\<rparr>"

definition string_scanned :: "bool \<Rightarrow> char list \<Rightarrow> lex_t" where
  "string_scanned nd bytes =
     (case lex_scan_string empty_heap (string_lex nd bytes) of
        Inr (h, lx) \<Rightarrow> lx
      | Inl f \<Rightarrow> string_lex nd bytes)"

lemma unescape_table:
  "unescape dq = Some dq" "unescape bs = Some bs" "unescape CHR ''/'' = Some CHR ''/''"
  "unescape CHR ''b'' = Some (CHR 0x08)" "unescape CHR ''f'' = Some (CHR 0x0C)"
  "unescape CHR ''n'' = Some (CHR 0x0A)" "unescape CHR ''r'' = Some (CHR 0x0D)"
  "unescape CHR ''t'' = Some (CHR 0x09)"
  by (simp_all add: unescape_def dq_def bs_def)

lemma string_a_tab_b:
  "lex_scan_string empty_heap (string_lex False [CHR ''a'', bs, CHR ''t'', CHR ''b'', dq, CHR '']'']) =
     Inr (empty_heap\<lparr>blocks := 1\<rparr>, string_scanned False [CHR ''a'', bs, CHR ''t'', CHR ''b'', dq, CHR '']''])
   \<and> saved_text (string_scanned False [CHR ''a'', bs, CHR ''t'', CHR ''b'', dq, CHR '']'']) =
       [dq, CHR ''a'', bs, CHR ''t'', CHR ''b'', dq]
   \<and> token (string_scanned False [CHR ''a'', bs, CHR ''t'', CHR ''b'', dq, CHR '']'']) = TOKEN_STRING
   \<and> val (string_scanned False [CHR ''a'', bs, CHR ''t'', CHR ''b'', dq, CHR '']'']) =
       VString (Some [CHR ''a'', CHR 0x09, CHR ''b''])"
  by code_simp

lemma string_u0041:
  "lex_scan_string empty_heap (string_lex False ([bs] @ ''u0041'' @ [dq, CHR '']''])) =
     Inr (empty_heap, string_scanned False ([bs] @ ''u0041'' @ [dq, CHR '']'']))
   \<and> saved_text (string_scanned False ([bs] @ ''u0041'' @ [dq, CHR '']''])) =
       dq # render [Uni CHR ''0'' CHR ''0'' CHR ''4'' CHR ''1''] @ [dq]
   \<and> raw_accepts (string_lex False ([bs] @ ''u0041'' @ [dq, CHR '']'']))
   \<and> list_all valid_item [Uni CHR ''0'' CHR ''0'' CHR ''4'' CHR ''1'']
   \<and> list_ex is_uni [Uni CHR ''0'' CHR ''0'' CHR ''4'' CHR ''1'']"
  by code_simp

lemma string_u00_not_accepted:
  "\<not> raw_accepts (string_lex False ([bs] @ ''u00'' @ [dq, CHR '']'']))
   \<and> token (string_scanned False ([bs] @ ''u00'' @ [dq, CHR '']''])) = TOKEN_INVALID
   \<and> saved_text (string_scanned False ([bs] @ ''u00'' @ [dq, CHR '']''])) = [dq, bs] @ ''u00''"
  by code_simp

lemma document_with_unicode_escape_fails:
  "json_loadf False 160 2 empty_heap (File ([CHR ''['', dq, bs] @ ''u0041'' @ [dq, CHR '']'']) False)
     (Some blank_error) =
   Inr (None, empty_heap,
        Some \<lparr>error_line = 1, error_text = ''invalid token near '' @ [sq, dq, bs] @ ''u0041'' @ [dq, sq]\<rparr>)"
  by code_simp

definition raw_scanned :: "bool \<Rightarrow> char list \<Rightarrow> lex_t" where
  "raw_scanned nd bytes =
     (case lex_string_raw ((string_lex nd bytes)\<lparr>token := TOKEN_INVALID\<rparr>) of
        Inr (closed, lx) \<Rightarrow> lx
      | Inl f \<Rightarrow> string_lex nd bytes)"

lemma raw_a_tab_b:
  "lex_string_raw ((string_lex False [CHR ''a'', bs, CHR ''t'', CHR ''b'', dq, CHR '']''])\<lparr>token := TOKEN_INVALID\<rparr>) =
     Inr (True, raw_scanned False [CHR ''a'', bs, CHR ''t'', CHR ''b'', dq, CHR '']''])"
  "saved_text (raw_scanned False [CHR ''a'', bs, CHR ''t'', CHR ''b'', dq, CHR '']'']) =
     dq # render [Plain CHR ''a'', Esc CHR ''t'', Plain CHR ''b''] @ [dq]"
  "list_all valid_item [Plain CHR ''a'', Esc CHR ''t'', Plain CHR ''b'']"
  "\<not> list_ex is_uni [Plain CHR ''a'', Esc CHR ''t'', Plain CHR ''b'']"
  "malloc empty_heap = (True, empty_heap\<lparr>blocks := 1\<rparr>)"
  by code_simp+

text \<open>
  C6: after the raw scan has succeeded, the second pass turns each two-character escape
  of the raw text into its byte, by the table of JSON (\<open>escape_table\<close>), and copies every
  other byte, and the decoded value is never longer than the raw text of the token;
  \<^verbatim>\<open>"a\tb"\<close> decodes to \<open>a\<close>, TAB, \<open>b\<close>. Whenever the raw scan of \<^verbatim>\<open>lex_scan_string\<close> has
  accepted and left as raw text the literal of some items without \<^verbatim>\<open>\u\<close>, and the
  allocation of the value succeeds, the token is STRING and its value is the list of
  the bytes that the items stand for. Every raw text that the raw scan accepts is such
  a literal (\<open>lex_string_raw_shape\<close>).
\<close>

theorem string_escapes_decoded:
  assumes "lex_string_raw (lx\<lparr>token := TOKEN_INVALID\<rparr>) = Inr (True, lx1)"
    and "saved_text lx1 = dq # render items @ [dq]"
    and "list_all valid_item items" and "\<not> list_ex is_uni items"
    and "malloc h = (True, h1)"
  shows "lex_scan_string h lx =
           Inr (h1, lx1\<lparr>val := VString (Some (map decode_item items)), token := TOKEN_STRING\<rparr>)
       \<and> length (map decode_item items) \<le> length (saved_text lx1)"
proof -
  have dec: "decode (ndebug (stream lx1)) (drop 1 (c_str (saved_text lx1))) =
      Inr (Some (map decode_item items))"
    using assms(2,3,4) decode_render [of items "ndebug (stream lx1)" "[]"] by (simp add: c_str_literal)
  from assms(1,5) dec have "lex_scan_string h lx =
      Inr (h1, lx1\<lparr>val := VString (Some (map decode_item items)), token := TOKEN_STRING\<rparr>)"
    by (simp add: lex_scan_string_def)
  with assms(2) length_render [of items] show ?thesis by simp
qed

theorem string_escapes_decoded_witness:
  "lex_scan_string empty_heap (string_lex False [CHR ''a'', bs, CHR ''t'', CHR ''b'', dq, CHR '']'']) =
     Inr (empty_heap\<lparr>blocks := 1\<rparr>,
          (raw_scanned False [CHR ''a'', bs, CHR ''t'', CHR ''b'', dq, CHR '']''])
             \<lparr>val := VString (Some [CHR ''a'', CHR 0x09, CHR ''b'']), token := TOKEN_STRING\<rparr>)
   \<and> length [CHR ''a'', CHR 0x09, CHR ''b''] \<le>
       length (saved_text (raw_scanned False [CHR ''a'', bs, CHR ''t'', CHR ''b'', dq, CHR '']'']))"
  using string_escapes_decoded [OF raw_a_tab_b]
  by (simp add: escape_table_def)

text \<open>Each of the eight escapes, decoded by \<^verbatim>\<open>lex_scan_string\<close> from a file.\<close>

lemma eight_escapes_decoded:
  "val (string_scanned False ([bs, dq, bs, bs, bs, CHR ''/'', bs, CHR ''b'', bs, CHR ''f'', bs, CHR ''n'',
          bs, CHR ''r'', bs, CHR ''t'', dq])) =
     VString (Some [dq, bs, CHR ''/'', CHR 0x08, CHR 0x0C, CHR 0x0A, CHR 0x0D, CHR 0x09])"
  by code_simp

text \<open>
  The raw scan accepts \<^verbatim>\<open>\u\<close> only with four hexadecimal digits behind it, and the
  decoding pass rejects every literal with a \<^verbatim>\<open>\u\<close>: the block is freed, the pointer is
  null and the token is INVALID, whatever the digits. Whenever the raw scan accepts, the
  saved text is a literal made of valid items; and a saved text that is a literal with a
  \<^verbatim>\<open>\u\<close> item never gives a STRING token.
\<close>

lemma unicode_escape_rejected:
  assumes "lex_scan_string h lx = Inr (h', lx')" and "saved_text lx = [dq]"
  shows "(raw_accepts lx \<longrightarrow>
            (\<exists>items. list_all valid_item items \<and> saved_text lx' = dq # render items @ [dq]))
       \<and> (list_all valid_item items \<and> list_ex is_uni items \<and>
            saved_text lx' = dq # render items @ [dq] \<longrightarrow>
            token lx' = TOKEN_INVALID \<and> blocks h' = blocks h \<and>
            (raw_accepts lx \<longrightarrow> val lx' = VString None))"
  using assms(1)
proof (cases rule: lex_scan_string_cases)
  case (stopped lx1)
  from lex_string_raw_same [OF stopped(1)] stopped(2) have inv: "token lx' = TOKEN_INVALID"
    by (simp add: same_fields_def)
  from stopped(1) have "\<not> raw_accepts lx" by (simp add: raw_accepts_def)
  with inv stopped(3) show ?thesis by simp
next
  case (closed lx1)
  from lex_string_raw_shape [OF closed(1)] assms(2) obtain items1 where
    items1: "list_all valid_item items1" "saved_text lx1 = dq # render items1 @ [dq]"
    and same: "same_fields (lx\<lparr>token := TOKEN_INVALID\<rparr>) lx1"
    by auto
  from same have inv: "token lx1 = TOKEN_INVALID" by (simp add: same_fields_def)
  have a: "\<exists>items. list_all valid_item items \<and> saved_text lx' = dq # render items @ [dq]"
    using items1 closed(2) by auto
  have b: "token lx' = TOKEN_INVALID \<and> blocks h' = blocks h \<and> val lx' = VString None"
    if v: "list_all valid_item items" and u: "list_ex is_uni items"
      and t: "saved_text lx' = dq # render items @ [dq]"
  proof -
    from t closed(2) have "saved_text lx1 = dq # render items @ [dq]" by simp
    with v u have dec: "decode nd (drop 1 (c_str (saved_text lx1))) = Inr None" for nd
      using decode_render [of items nd "[]"] by (simp add: c_str_literal)
    from closed(3) dec inv show ?thesis
      by (auto simp: malloc_def free_def alloc_def split: prod.splits if_splits list.splits)
  qed
  from a b show ?thesis by blast
qed

text \<open>
  C4: a \<^verbatim>\<open>\u\<close> escape is accepted by the raw scan only with four hexadecimal digits and
  always rejected by the decoding pass, so that any document containing a \<^verbatim>\<open>\u\<close> escape
  inside a string fails to parse. The lexer does what the claim says
  (\<open>unicode_escape_rejected\<close>, \<open>string_u0041\<close>, \<open>string_u00_not_accepted\<close>), and a document
  in which the parser reaches such a string fails
  (\<open>document_with_unicode_escape_fails\<close>). But \<^verbatim>\<open>json_loadf\<close> never scans behind the
  top-level value: read from a file, the document \<^verbatim>\<open>[]"\u0041"\<close> gives the empty array
  and no diagnostic, in both builds.
\<close>

theorem json_loadf_accepts_unicode_escape:
  "json_loadf False 160 2 empty_heap (File (''[]'' @ [dq, bs] @ ''u0041'' @ [dq]) False)
      (Some blank_error) =
     Inr (Some \<lparr>tree = JArray [], refcount = 1\<rparr>, \<lparr>outcomes = [], blocks = 0, nodes = 1\<rparr>,
          Some blank_error)
   \<and> json_loadf True 160 2 empty_heap (File (''[]'' @ [dq, bs] @ ''u0041'' @ [dq]) False)
      (Some blank_error) =
     Inr (Some \<lparr>tree = JArray [], refcount = 1\<rparr>, \<lparr>outcomes = [], blocks = 0, nodes = 1\<rparr>,
          Some blank_error)"
  by code_simp

text \<open>\<^verbatim>\<open>json_loads\<close>, which scans once more, rejects the same document (the buffer holds a
  second zero byte behind the terminator); and a document whose string the parser
  reaches fails under \<^verbatim>\<open>NDEBUG\<close> as well.\<close>

lemma json_loads_rejects_unicode_escape:
  "json_loads False 160 2 empty_heap (''[]'' @ [dq, bs] @ ''u0041'' @ [dq, CHR 0x00, CHR 0x00])
      (Some blank_error) =
     Inr (None, empty_heap,
          Some \<lparr>error_line = 1,
                error_text = ''end of file expected near '' @ [sq, dq, bs] @ ''u0041'' @ [dq, sq]\<rparr>)"
  by code_simp

lemma document_with_unicode_escape_fails_2:
  "json_loadf True 160 2 empty_heap (File ([CHR ''['', dq, bs] @ ''u0041'' @ [dq, CHR '']'']) False)
     (Some blank_error) =
   Inr (None, empty_heap,
        Some \<lparr>error_line = 1, error_text = ''invalid token near '' @ [sq, dq, bs] @ ''u0041'' @ [dq, sq]\<rparr>)"
  by code_simp

section \<open>Number literals\<close>

text \<open>
  Reading bytes below 0x80 from a file. \<open>fresh\<close>: the byte under the cursor of the buffer
  is the terminator, so the next read takes a byte from the source. \<open>got\<close>: the stream
  has just delivered the byte \<open>c\<close>, which can be pushed back.
\<close>

definition ascii :: "char \<Rightarrow> bool" where
  "ascii c = ((of_char c :: nat) < 128)"

definition fresh :: "stream_t \<Rightarrow> bool" where
  "fresh s = (2 \<le> length (buffer s) \<and> 0 \<le> buffer_pos s \<and> buffer_pos s < int (length (buffer s)) \<and>
              buffer s ! nat (buffer_pos s) = CHR 0x00)"

definition got :: "char \<Rightarrow> char list \<Rightarrow> bool \<Rightarrow> stream_t \<Rightarrow> bool" where
  "got c rest e s = (src s = File rest e \<and> 2 \<le> length (buffer s) \<and> buffer_pos s = 1 \<and>
                     buffer s ! 0 = c \<and> buffer s ! 1 = CHR 0x00)"

lemma got_fresh: "got c rest e s \<Longrightarrow> fresh s"
  by (simp add: got_def fresh_def)

lemma of_char_int: "(of_char c :: int) = int (of_char c)"
  by (simp add: of_nat_of_char)

lemma schar_ascii: "ascii c \<Longrightarrow> schar c = int (of_char c)"
  by (simp add: ascii_def schar_def of_char_int)

lemma stream_get_ascii:
  assumes "fresh s" and "src s = File (c # rest) e" and "ascii c"
  shows "\<exists>s'. stream_get s = Inr (c, s') \<and> got c rest e s' \<and> ndebug s' = ndebug s"
proof -
  from assms(3) have nn: "schar c \<noteq> EOF" "\<not> schar c < 0"
    by (simp_all add: schar_ascii EOF_def)
  from assms(1) have r: "buf_read (buffer s) (buffer_pos s) = Inr (CHR 0x00)"
    by (simp add: fresh_def buf_read_def)
  from assms(1) have len: "2 \<le> length (buffer s)" by (simp add: fresh_def)
  define s' where "s' = s\<lparr>src := File rest e, buffer := (buffer s)[0 := c, 1 := CHR 0x00], buffer_pos := 1\<rparr>"
  from len have ne: "buffer s \<noteq> []" by auto
  from r assms(2) nn len ne have "stream_get s = Inr (c, s')"
    by (auto simp: stream_get_def fgetc_def to_char_of_char Let_def stream_ret_def buf_read_def s'_def
          of_char_int [symmetric])
  moreover from len have "0 < length (buffer s)" "1 < length (buffer s)" by linarith+
  with len have "got c rest e s'" by (simp add: got_def s'_def nth_list_update)
  moreover have "ndebug s' = ndebug s" by (simp add: s'_def)
  ultimately show ?thesis by blast
qed

lemma stream_unget_ascii:
  assumes "got c rest e s" and "ascii c"
  shows "stream_unget s c = Inr (s\<lparr>buffer_pos := 0\<rparr>)"
  using assms
  by (auto simp: stream_unget_def got_def c_assert_def Let_def buf_read_def schar_ascii of_char_int)

lemma lex_get_save_ascii:
  assumes "fresh (stream lx)" and "src (stream lx) = File (c # rest) e" and "ascii c"
  shows "\<exists>lx'. lex_get_save lx = Inr (c, lx') \<and> got c rest e (stream lx') \<and>
           saved_text lx' = saved_text lx @ [c] \<and> same_fields lx lx'"
proof -
  from stream_get_ascii [OF assms] obtain s' where
    "stream_get (stream lx) = Inr (c, s')" "got c rest e s'" "ndebug s' = ndebug (stream lx)" by blast
  then show ?thesis
    by (simp add: lex_get_save_def lex_save_def same_fields_def)
qed

lemma lex_get_ascii:
  assumes "fresh (stream lx)" and "src (stream lx) = File (c # rest) e" and "ascii c"
  shows "\<exists>lx'. lex_get lx = Inr (c, lx') \<and> got c rest e (stream lx') \<and>
           saved_text lx' = saved_text lx \<and> same_fields lx lx'"
proof -
  from stream_get_ascii [OF assms] obtain s' where
    "stream_get (stream lx) = Inr (c, s')" "got c rest e s'" "ndebug s' = ndebug (stream lx)" by blast
  then show ?thesis
    by (simp add: lex_get_def same_fields_def)
qed

lemma lex_unget_unsave_ascii:
  assumes "got c rest e (stream lx)" and "ascii c" and "saved_text lx = t @ [c]"
  shows "\<exists>lx'. lex_unget_unsave lx c = Inr lx' \<and> saved_text lx' = t \<and> same_fields lx lx' \<and>
           src (stream lx') = File rest e"
  using assms stream_unget_ascii [OF assms(1,2)]
  by (simp add: lex_unget_unsave_def strbuffer_pop_def c_assert_def same_fields_def got_def)

lemma isdigit_ascii: "isdigit c \<Longrightarrow> ascii c"
  by (simp add: isdigit_def in_range_def ascii_def)

lemma lex_digits_run:
  assumes "list_all isdigit ds" and "ascii t" and "\<not> isdigit t"
    and "fresh (stream lx)" and "src (stream lx) = File (ds @ t # rest) e"
  shows "\<exists>lx'. lex_digits lx = Inr (t, lx') \<and> got t rest e (stream lx') \<and>
           saved_text lx' = saved_text lx @ ds @ [t] \<and> same_fields lx lx'"
  using assms
proof (induction ds arbitrary: lx)
  case Nil
  from lex_get_save_ascii [OF Nil(4) _ Nil(2)] Nil(5) obtain lx' where
    "lex_get_save lx = Inr (t, lx')" "got t rest e (stream lx')"
    "saved_text lx' = saved_text lx @ [t]" "same_fields lx lx'" by auto
  with Nil(3) show ?case by (subst lex_digits.simps) simp
next
  case (Cons d ds)
  from Cons.prems have d: "isdigit d" "ascii d" by (simp_all add: isdigit_ascii)
  from lex_get_save_ascii [OF Cons.prems(4) _ d(2)] Cons.prems(5) obtain lx1 where
    g: "lex_get_save lx = Inr (d, lx1)" "got d (ds @ t # rest) e (stream lx1)"
    "saved_text lx1 = saved_text lx @ [d]" "same_fields lx lx1" by auto
  from g(2) have "fresh (stream lx1)" "src (stream lx1) = File (ds @ t # rest) e"
    by (simp_all add: got_fresh) (simp add: got_def)
  from Cons.IH [OF _ Cons.prems(2,3) this] Cons.prems(1) obtain lx' where
    "lex_digits lx1 = Inr (t, lx')" "got t rest e (stream lx')"
    "saved_text lx' = saved_text lx1 @ ds @ [t]" "same_fields lx1 lx'" by auto
  with g d show ?case
    by (subst lex_digits.simps) (simp add: same_fields_def)
qed

text \<open>
  The number literals of JSON: a sign, the digits of the integer part (a single 0 or a
  digit from 1 to 9 followed by digits), a fraction, and an exponent with its letter
  and sign. \<open>literal\<close> is the text of a number.
\<close>

datatype exponent = Exponent (exp_mark: char) (exp_sign: "char option") (exp_digits: "char list")

datatype number =
  Number (negative: bool) (int_digits: "char list") (fraction: "char list option")
    (exponent: "exponent option")

definition digits :: "char list \<Rightarrow> bool" where
  "digits ds = (ds \<noteq> [] \<and> list_all isdigit ds)"

fun wf_exponent :: "exponent \<Rightarrow> bool" where
  "wf_exponent (Exponent m sg ds) =
     ((m = CHR ''e'' \<or> m = CHR ''E'') \<and> (sg = None \<or> sg = Some CHR ''+'' \<or> sg = Some CHR ''-'') \<and>
      digits ds)"

fun wf_number :: "number \<Rightarrow> bool" where
  "wf_number (Number neg ip fr ex) =
     (digits ip \<and> (hd ip \<noteq> CHR ''0'' \<or> ip = ''0'') \<and>
      (case fr of None \<Rightarrow> True | Some fs \<Rightarrow> digits fs) \<and>
      (case ex of None \<Rightarrow> True | Some x \<Rightarrow> wf_exponent x))"

definition sign_text :: "bool \<Rightarrow> char list" where
  "sign_text neg = (if neg then ''-'' else [])"

definition fraction_text :: "char list option \<Rightarrow> char list" where
  "fraction_text fr = (case fr of None \<Rightarrow> [] | Some fs \<Rightarrow> CHR ''.'' # fs)"

fun exponent_text :: "exponent option \<Rightarrow> char list" where
  "exponent_text None = []"
| "exponent_text (Some (Exponent m sg ds)) = m # (case sg of None \<Rightarrow> [] | Some c \<Rightarrow> [c]) @ ds"

fun literal :: "number \<Rightarrow> char list" where
  "literal (Number neg ip fr ex) = sign_text neg @ ip @ fraction_text fr @ exponent_text ex"

definition integer_value :: "bool \<Rightarrow> char list \<Rightarrow> int" where
  "integer_value neg ip = (if neg then - dec_val 0 ip else dec_val 0 ip)"

lemma isdigit_not_space: "isdigit c \<Longrightarrow> \<not> isspace c"
  by (auto simp: isdigit_def isspace_def in_range_def)

lemma isdigit_not_sign: "isdigit c \<Longrightarrow> c \<noteq> CHR ''-'' \<and> c \<noteq> CHR ''+'' \<and> c \<noteq> CHR ''.'' \<and>
    c \<noteq> CHR ''e'' \<and> c \<noteq> CHR ''E'' \<and> c \<noteq> CHR 0x00"
  by (auto simp: isdigit_def in_range_def)

lemma takeWhile_digits: "list_all isdigit ds \<Longrightarrow> \<not> isdigit u \<Longrightarrow> takeWhile isdigit (ds @ u # r) = ds"
  by (induction ds) auto

lemma dropWhile_digits: "list_all isdigit ds \<Longrightarrow> \<not> isdigit u \<Longrightarrow> dropWhile isdigit (ds @ u # r) = u # r"
  by (induction ds) auto

lemma takeWhile_digits_all: "list_all isdigit ds \<Longrightarrow> takeWhile isdigit ds = ds"
  by (induction ds) auto

lemma dropWhile_digits_all: "list_all isdigit ds \<Longrightarrow> dropWhile isdigit ds = []"
  by (induction ds) auto

lemma strtol_integer:
  assumes "digits ip"
  shows "strtol (sign_text neg @ ip) =
           (max LONG_MIN (min LONG_MAX (integer_value neg ip)), length (sign_text neg @ ip))"
proof -
  from assms obtain d ds where ip: "ip = d # ds" and d: "isdigit d" and ds: "list_all isdigit ds"
    by (cases ip) (auto simp: digits_def)
  from d have nd: "\<not> isspace d" "d \<noteq> CHR ''-''" "d \<noteq> CHR ''+''"
    by (simp_all add: isdigit_not_space isdigit_not_sign)
  show ?thesis
  proof (cases neg)
    case True
    with ip d ds nd show ?thesis
      by (simp add: strtol_def sign_text_def isspace_def in_range_def skip_sign_def
            takeWhile_digits_all integer_value_def Let_def)
  next
    case False
    with ip d ds nd show ?thesis
      by (simp add: strtol_def sign_text_def skip_sign_def takeWhile_digits_all integer_value_def Let_def)
  qed
qed


definition stops :: "char list \<Rightarrow> bool" where
  "stops r = (case r of [] \<Rightarrow> True | u # _ \<Rightarrow> \<not> isdigit u)"

lemma takeWhile_stops: "list_all isdigit ds \<Longrightarrow> stops r \<Longrightarrow> takeWhile isdigit (ds @ r) = ds"
  by (induction ds) (auto simp: stops_def split: list.splits)

lemma dropWhile_stops: "list_all isdigit ds \<Longrightarrow> stops r \<Longrightarrow> dropWhile isdigit (ds @ r) = r"
  by (induction ds) (auto simp: stops_def split: list.splits)

lemma stops_exponent_text: "wf_exponent x \<Longrightarrow> stops (exponent_text (Some x))"
  by (cases x) (auto simp: stops_def isdigit_def in_range_def)

lemma stops_simps: "stops []" "stops (CHR ''.'' # r)"
  by (simp_all add: stops_def isdigit_def in_range_def)

lemma exponent_length_text:
  assumes "case ex of None \<Rightarrow> True | Some x \<Rightarrow> wf_exponent x"
  shows "exponent_length (exponent_text ex) = length (exponent_text ex)"
proof (cases ex)
  case None
  then show ?thesis by (simp add: exponent_length_def)
next
  case (Some x)
  obtain m sg ds where x: "x = Exponent m sg ds" by (cases x)
  with assms Some obtain d ds' where ds: "ds = d # ds'" "isdigit d" "list_all isdigit ds'"
    by (cases ds) (auto simp: digits_def)
  from ds(2) have nd: "d \<noteq> CHR ''-''" "d \<noteq> CHR ''+''" by (simp_all add: isdigit_not_sign)
  from assms Some x ds nd show ?thesis
    by (auto simp: exponent_length_def skip_sign_def takeWhile_digits_all Let_def)
qed

lemma fraction_digits_text:
  assumes "case fr of None \<Rightarrow> True | Some fs \<Rightarrow> digits fs"
    and "case ex of None \<Rightarrow> True | Some x \<Rightarrow> wf_exponent x"
  shows "fraction_digits (fraction_text fr @ exponent_text ex) =
           (case fr of None \<Rightarrow> [] | Some fs \<Rightarrow> fs, exponent_text ex)"
proof (cases fr)
  case None
  show ?thesis
  proof (cases ex)
    case n: None
    with None show ?thesis by (simp add: fraction_digits_def fraction_text_def)
  next
    case (Some x)
    obtain m sg ds where x: "x = Exponent m sg ds" by (cases x)
    with assms(2) Some None show ?thesis
      by (auto simp: fraction_digits_def fraction_text_def)
  qed
next
  case (Some fs)
  with assms(1) have fsd: "list_all isdigit fs" by (simp add: digits_def)
  have st: "stops (exponent_text ex)"
    using assms(2) by (cases ex) (auto simp: stops_simps stops_exponent_text)
  from Some takeWhile_stops [OF fsd st] dropWhile_stops [OF fsd st] show ?thesis
    by (simp add: fraction_digits_def fraction_text_def)
qed

lemma strtod_end_literal:
  assumes "wf_number n"
  shows "strtod_end (literal n) = length (literal n)"
proof (cases n)
  case (Number neg ip fr ex)
  with assms obtain d ds where ip: "ip = d # ds" and d: "isdigit d" and dsd: "list_all isdigit ds"
    by (cases ip) (auto simp: digits_def)
  from d have nd: "\<not> isspace d" "d \<noteq> CHR ''-''" "d \<noteq> CHR ''+''"
    by (simp_all add: isdigit_not_space isdigit_not_sign)
  have ipd: "list_all isdigit ip" using ip d dsd by simp
  have ne: "ip \<noteq> []" using ip by simp
  from assms Number have wfr: "case fr of None \<Rightarrow> True | Some fs \<Rightarrow> digits fs"
    and wex: "case ex of None \<Rightarrow> True | Some x \<Rightarrow> wf_exponent x" by simp_all
  have st_ex: "stops (exponent_text ex)"
    using wex by (cases ex) (auto simp: stops_simps stops_exponent_text)
  have st_fr: "stops (fraction_text fr @ exponent_text ex)"
    using st_ex by (cases fr) (auto simp: fraction_text_def stops_simps)
  have sk: "skip_sign (dropWhile isspace (literal n)) = (neg, ip @ fraction_text fr @ exponent_text ex)"
    using Number ip nd
    by (cases neg) (auto simp: sign_text_def skip_sign_def isspace_def in_range_def)
  have d1: "takeWhile isdigit (ip @ fraction_text fr @ exponent_text ex) = ip"
    using ipd st_fr by (rule takeWhile_stops)
  have r2: "dropWhile isdigit (ip @ fraction_text fr @ exponent_text ex) =
      fraction_text fr @ exponent_text ex"
    using ipd st_fr by (rule dropWhile_stops)
  have tot: "length (exponent_text ex) \<le> length (literal n)"
    using Number by simp
  show ?thesis
    unfolding strtod_end_def sk Let_def prod.case d1 r2 fraction_digits_text [OF wfr wex]
      exponent_length_text [OF wex]
    using ne tot by simp
qed

lemma literal_no_zero: "wf_number n \<Longrightarrow> CHR 0x00 \<notin> set (literal n)"
proof (cases n)
  case (Number neg ip fr ex)
  assume wf: "wf_number n"
  have d: "CHR 0x00 \<notin> set ds" if "list_all isdigit ds" for ds
    using that by (induction ds) (auto dest: isdigit_not_sign)
  from wf Number have "CHR 0x00 \<notin> set ip" by (simp add: digits_def d)
  moreover from wf Number have "CHR 0x00 \<notin> set (fraction_text fr)"
    by (cases fr) (auto simp: fraction_text_def digits_def d)
  moreover from wf Number have "CHR 0x00 \<notin> set (exponent_text ex)"
    by (cases ex; cases "the ex") (auto simp: digits_def d)
  ultimately show ?thesis using Number by (auto simp: sign_text_def)
qed

lemma got_src: "got c rest e s \<Longrightarrow> src s = File rest e"
  by (simp add: got_def)

text \<open>The three parts of \<^verbatim>\<open>lex_scan_number\<close> on the text of a literal.\<close>

lemma lex_scan_integer_run:
  assumes ip: "digits ip" "hd ip \<noteq> CHR ''0'' \<or> ip = ''0''"
    and lit: "sign_text neg @ ip = c # cs"
    and u: "ascii u" "\<not> isdigit u"
    and st: "fresh (stream lx)" "src (stream lx) = File (cs @ u # rest) e"
    and sv: "saved_text lx = [c]"
  shows "\<exists>lx'. lex_scan_integer lx c = Inr (Inr (u, lx')) \<and> got u rest e (stream lx') \<and>
           saved_text lx' = sign_text neg @ ip @ [u] \<and> same_fields lx lx'"
proof -
  from ip(1) obtain d ds where dds: "ip = d # ds" and d: "isdigit d" and ds: "list_all isdigit ds"
    by (cases ip) (auto simp: digits_def)
  from d have da: "ascii d" and dn: "d \<noteq> CHR ''-''" by (simp_all add: isdigit_ascii isdigit_not_sign)
  have "\<exists>lx1. (if c = CHR ''-'' then lex_get_save lx else Inr (c, lx)) = Inr (d, lx1) \<and>
          fresh (stream lx1) \<and> src (stream lx1) = File (ds @ u # rest) e \<and>
          saved_text lx1 = sign_text neg @ [d] \<and> same_fields lx lx1"
  proof (cases neg)
    case True
    with lit dds have c: "c = CHR ''-''" and cs: "cs = d # ds" by (simp_all add: sign_text_def)
    from lex_get_save_ascii [OF st(1) _ da] st(2) cs obtain lx1 where
      "lex_get_save lx = Inr (d, lx1)" "got d (ds @ u # rest) e (stream lx1)"
      "saved_text lx1 = saved_text lx @ [d]" "same_fields lx lx1" by auto
    with c sv True show ?thesis by (auto simp: sign_text_def got_fresh got_src)
  next
    case False
    with lit dds have c: "c = d" and cs: "cs = ds" by (simp_all add: sign_text_def)
    with dn st sv False show ?thesis by (simp add: sign_text_def same_fields_def)
  qed
  then obtain lx1 where s1: "(if c = CHR ''-'' then lex_get_save lx else Inr (c, lx)) = Inr (d, lx1)"
    and f1: "fresh (stream lx1)" and r1: "src (stream lx1) = File (ds @ u # rest) e"
    and t1: "saved_text lx1 = sign_text neg @ [d]" and e1: "same_fields lx lx1" by blast
  show ?thesis
  proof (cases "d = CHR ''0''")
    case True
    with ip(2) dds have "ds = []" by simp
    with lex_get_save_ascii [OF f1 _ u(1)] r1 obtain lx2 where
      "lex_get_save lx1 = Inr (u, lx2)" "got u rest e (stream lx2)"
      "saved_text lx2 = saved_text lx1 @ [u]" "same_fields lx1 lx2" by auto
    with s1 True u(2) t1 e1 dds \<open>ds = []\<close> show ?thesis
      by (auto simp: lex_scan_integer_def intro: same_fields_trans)
  next
    case False
    from lex_digits_run [OF ds u f1 r1] obtain lx2 where
      "lex_digits lx1 = Inr (u, lx2)" "got u rest e (stream lx2)"
      "saved_text lx2 = saved_text lx1 @ ds @ [u]" "same_fields lx1 lx2" by auto
    with s1 False t1 e1 dds show ?thesis
      by (auto simp: lex_scan_integer_def intro: same_fields_trans)
  qed
qed

lemma lex_scan_fraction_run:
  assumes fr: "case fr of None \<Rightarrow> True | Some fs \<Rightarrow> digits fs"
    and inp: "fraction_text fr @ [u] = c # cs"
    and u: "ascii u" "\<not> isdigit u" "u \<noteq> CHR ''.''"
    and st: "got c (cs @ rest) e (stream lx)"
  shows "\<exists>lx'. lex_scan_fraction lx c = Inr (Inr (u, lx')) \<and> got u rest e (stream lx') \<and>
           saved_text lx' = saved_text lx @ cs \<and> same_fields lx lx'"
proof (cases fr)
  case None
  with inp have "c = u" "cs = []" by (simp_all add: fraction_text_def)
  with u(3) st show ?thesis by (simp add: lex_scan_fraction_def same_fields_def)
next
  case (Some fs)
  with fr obtain d ds where fs: "fs = d # ds" and d: "isdigit d" and ds: "list_all isdigit ds"
    by (cases fs) (auto simp: digits_def)
  from Some inp fs have c: "c = CHR ''.''" and cs: "cs = d # ds @ [u]"
    by (simp_all add: fraction_text_def)
  from st cs have f0: "fresh (stream lx)" and r0: "src (stream lx) = File (d # ds @ u # rest) e"
    by (simp_all add: got_fresh got_src)
  from lex_get_ascii [OF f0 r0 isdigit_ascii [OF d]] obtain lx1 where
    g1: "lex_get lx = Inr (d, lx1)" "got d (ds @ u # rest) e (stream lx1)"
    "saved_text lx1 = saved_text lx" "same_fields lx lx1" by auto
  have f1: "fresh (stream (lex_save lx1 d))" and r1: "src (stream (lex_save lx1 d)) = File (ds @ u # rest) e"
    using g1(2) by (simp_all add: lex_save_def got_fresh got_src)
  from lex_digits_run [OF ds u(1,2) f1 r1] obtain lx2 where
    "lex_digits (lex_save lx1 d) = Inr (u, lx2)" "got u rest e (stream lx2)"
    "saved_text lx2 = saved_text (lex_save lx1 d) @ ds @ [u]" "same_fields (lex_save lx1 d) lx2" by auto
  with g1 c d cs show ?thesis
    by (auto simp: lex_scan_fraction_def lex_save_def same_fields_def)
qed


lemma lex_scan_exponent_run:
  assumes ex: "case ex of None \<Rightarrow> True | Some x \<Rightarrow> wf_exponent x"
    and inp: "exponent_text ex @ [t] = c # cs"
    and t: "ascii t" "\<not> isdigit t" "t \<noteq> CHR ''e''" "t \<noteq> CHR ''E''"
    and st: "got c (cs @ rest) e (stream lx)"
  shows "\<exists>lx'. lex_scan_exponent lx c = Inr (Inr (t, lx')) \<and> got t rest e (stream lx') \<and>
           saved_text lx' = saved_text lx @ cs \<and> same_fields lx lx'"
proof (cases ex)
  case None
  with inp have "c = t" "cs = []" by simp_all
  with t st show ?thesis by (simp add: lex_scan_exponent_def same_fields_def)
next
  case (Some x)
  obtain m sg ds where x: "x = Exponent m sg ds" by (cases x)
  with ex Some have m: "m = CHR ''e'' \<or> m = CHR ''E''"
    and sg: "sg = None \<or> sg = Some CHR ''+'' \<or> sg = Some CHR ''-''" and dg: "digits ds"
    by simp_all
  from dg obtain d ds' where ds: "ds = d # ds'" and d: "isdigit d" and ds': "list_all isdigit ds'"
    by (cases ds) (auto simp: digits_def)
  from d have dn: "d \<noteq> CHR ''+''" "d \<noteq> CHR ''-''" and da: "ascii d"
    by (simp_all add: isdigit_not_sign isdigit_ascii)
  from Some x inp have c: "c = m" and cs: "cs = (case sg of None \<Rightarrow> [] | Some s \<Rightarrow> [s]) @ ds @ [t]"
    by simp_all
  from st have f0: "fresh (stream lx)" and r0: "src (stream lx) = File (cs @ rest) e"
    by (simp_all add: got_fresh got_src)
  have "\<exists>lx2. (case lex_get_save lx of
                 Inl f \<Rightarrow> Inl f
               | Inr (c1, lx1) \<Rightarrow>
                   (case (if c1 = CHR ''+'' \<or> c1 = CHR ''-'' then lex_get_save lx1 else Inr (c1, lx1)) of
                      Inl f \<Rightarrow> Inl f
                    | Inr (c2, lx2) \<Rightarrow> Inr (c2, lx2))) = Inr (d, lx2) \<and>
          fresh (stream lx2) \<and> src (stream lx2) = File (ds' @ t # rest) e \<and>
          saved_text lx2 = saved_text lx @ (case sg of None \<Rightarrow> [] | Some s \<Rightarrow> [s]) @ [d] \<and>
          same_fields lx lx2"
  proof (cases sg)
    case None
    with cs ds r0 have "src (stream lx) = File (d # ds' @ t # rest) e" by simp
    from lex_get_save_ascii [OF f0 this da] obtain lx1 where
      "lex_get_save lx = Inr (d, lx1)" "got d (ds' @ t # rest) e (stream lx1)"
      "saved_text lx1 = saved_text lx @ [d]" "same_fields lx lx1" by auto
    with None dn show ?thesis by (auto simp: got_fresh got_src)
  next
    case (Some s)
    with sg have s: "s = CHR ''+'' \<or> s = CHR ''-''" by simp
    then have sa: "ascii s" by (auto simp: ascii_def)
    from Some cs ds r0 have "src (stream lx) = File (s # d # ds' @ t # rest) e" by simp
    from lex_get_save_ascii [OF f0 this sa] obtain lx1 where
      g1: "lex_get_save lx = Inr (s, lx1)" "got s (d # ds' @ t # rest) e (stream lx1)"
      "saved_text lx1 = saved_text lx @ [s]" "same_fields lx lx1" by auto
    from g1(2) have "fresh (stream lx1)" "src (stream lx1) = File (d # ds' @ t # rest) e"
      by (simp_all add: got_fresh got_src)
    from lex_get_save_ascii [OF this da] obtain lx2 where
      "lex_get_save lx1 = Inr (d, lx2)" "got d (ds' @ t # rest) e (stream lx2)"
      "saved_text lx2 = saved_text lx1 @ [d]" "same_fields lx1 lx2" by auto
    with g1 s Some show ?thesis
      by (auto simp: got_fresh got_src intro: same_fields_trans)
  qed
  then obtain lx2 where
    g: "(case lex_get_save lx of
                 Inl f \<Rightarrow> Inl f
               | Inr (c1, lx1) \<Rightarrow>
                   (case (if c1 = CHR ''+'' \<or> c1 = CHR ''-'' then lex_get_save lx1 else Inr (c1, lx1)) of
                      Inl f \<Rightarrow> Inl f
                    | Inr (c2, lx2) \<Rightarrow> Inr (c2, lx2))) = Inr (d, lx2)"
    and f2: "fresh (stream lx2)" and r2: "src (stream lx2) = File (ds' @ t # rest) e"
    and t2: "saved_text lx2 = saved_text lx @ (case sg of None \<Rightarrow> [] | Some s \<Rightarrow> [s]) @ [d]"
    and e2: "same_fields lx lx2" by blast
  from lex_digits_run [OF ds' t(1,2) f2 r2] obtain lx3 where
    l3: "lex_digits lx2 = Inr (t, lx3)" "got t rest e (stream lx3)"
    "saved_text lx3 = saved_text lx2 @ ds' @ [t]" "same_fields lx2 lx3" by auto
  from g d l3(1) have "lex_scan_exponent lx c = Inr (Inr (t, lx3))"
    using c m by (auto simp: lex_scan_exponent_def split: sum.splits prod.splits)
  with l3 t2 e2 cs ds show ?thesis
    by (auto intro: same_fields_trans)
qed

lemma c_str_literal_number: "wf_number n \<Longrightarrow> c_str (literal n) = literal n"
  by (rule c_str_id) (rule literal_no_zero)

lemma lex_scan_number_literal:
  assumes wf: "wf_number n"
    and inp: "literal n @ t # rest = c # input"
    and t: "ascii t" "\<not> isdigit t" "t \<noteq> CHR ''.''" "t \<noteq> CHR ''e''" "t \<noteq> CHR ''E''"
    and st: "fresh (stream lx)" "src (stream lx) = File input e"
    and sv: "saved_text lx = [c]"
  shows "\<exists>lx'. lex_scan_number lx c = Inr lx' \<and> saved_text lx' = literal n \<and>
           src (stream lx') = File rest e \<and> line lx' = line lx \<and>
           (if fraction n = None \<and> exponent n = None
            then token lx' = TOKEN_INTEGER \<and>
                 val lx' = VInteger (word_of_int (max LONG_MIN (min LONG_MAX
                             (integer_value (negative n) (int_digits n)))))
            else token lx' = TOKEN_REAL \<and> val lx' = VReal (Strtod (literal n)))"
proof -
  obtain neg ip fr ex where n: "n = Number neg ip fr ex" by (cases n)
  from wf n have ipd: "digits ip" and lead: "hd ip \<noteq> CHR ''0'' \<or> ip = ''0''"
    and wfr: "case fr of None \<Rightarrow> True | Some fs \<Rightarrow> digits fs"
    and wex: "case ex of None \<Rightarrow> True | Some x \<Rightarrow> wf_exponent x" by simp_all
  obtain u2 E where E: "exponent_text ex @ [t] = u2 # E"
    by (cases "exponent_text ex") auto
  obtain c3 F where F: "fraction_text fr @ [u2] = c3 # F"
    by (cases "fraction_text fr") auto
  have u2: "ascii u2" "\<not> isdigit u2" "u2 \<noteq> CHR ''.''"
    using E wex t
    by (cases ex; cases "the ex"; auto simp: ascii_def isdigit_def in_range_def)+
  have c3: "ascii c3" "\<not> isdigit c3"
    using F u2 wfr by (cases fr; auto simp: fraction_text_def ascii_def isdigit_def in_range_def)+
  have full: "fraction_text fr @ exponent_text ex @ [t] = c3 # F @ E"
  proof -
    have "fraction_text fr @ exponent_text ex @ [t] = (fraction_text fr @ [u2]) @ E"
      using E by simp
    then show ?thesis using F by simp
  qed
  from ipd obtain c0 cs where sg: "sign_text neg @ ip = c0 # cs"
    by (cases "sign_text neg @ ip") (auto simp: digits_def)
  have "literal n @ t # rest = (sign_text neg @ ip) @ (fraction_text fr @ exponent_text ex @ [t]) @ rest"
    using n by simp
  with inp sg full have c0: "c0 = c" and input: "input = cs @ c3 # F @ E @ rest" by simp_all
  define lx0 where "lx0 = lx\<lparr>token := TOKEN_INVALID\<rparr>"
  have st0: "fresh (stream lx0)" "src (stream lx0) = File (cs @ c3 # (F @ E @ rest)) e"
    "saved_text lx0 = [c]"
    using st sv input by (simp_all add: lx0_def)
  from lex_scan_integer_run [OF ipd lead sg [unfolded c0] c3 st0] obtain lx3 where
    a: "lex_scan_integer lx0 c = Inr (Inr (c3, lx3))" "got c3 (F @ E @ rest) e (stream lx3)"
    "saved_text lx3 = sign_text neg @ ip @ [c3]" "same_fields lx0 lx3" by blast
  show ?thesis
  proof (cases "fr = None \<and> ex = None")
    case True
    with E F have eq: "c3 = t" "F = []" "E = []" by (simp_all add: fraction_text_def)
    from eq a(2) have g: "got t rest e (stream lx3)" by simp
    from lex_unget_unsave_ascii [OF g t(1), of "sign_text neg @ ip"] a(3) eq obtain lx4 where
      b: "lex_unget_unsave lx3 t = Inr lx4" "saved_text lx4 = sign_text neg @ ip"
      "same_fields lx3 lx4" "src (stream lx4) = File rest e" by auto
    have lit: "literal n = sign_text neg @ ip" using n True by (simp add: fraction_text_def)
    have cstr: "c_str (sign_text neg @ ip) = sign_text neg @ ip"
      using c_str_literal_number [OF wf] lit by simp
    from a(1) b eq t strtol_integer [OF ipd, of neg] cstr
    have "lex_scan_number lx c =
        Inr (lx4\<lparr>token := TOKEN_INTEGER,
               val := VInteger (word_of_int (max LONG_MIN (min LONG_MAX (integer_value neg ip))))\<rparr>)"
      by (simp add: lex_scan_number_def lx0_def [symmetric] c_assert_def)
    with b a(4) lit n True show ?thesis
      by (simp add: same_fields_def lx0_def)
  next
    case False
    then have c3r: "c3 = CHR ''.'' \<or> c3 = CHR ''E'' \<or> c3 = CHR ''e''"
      using E F wex wfr
      by (cases fr; cases ex; cases "the ex"; auto simp: fraction_text_def)
    from a(2) have g3: "got c3 (F @ (E @ rest)) e (stream lx3)" by simp
    from lex_scan_fraction_run [OF wfr F u2 g3] obtain lx4 where
      b: "lex_scan_fraction lx3 c3 = Inr (Inr (u2, lx4))" "got u2 (E @ rest) e (stream lx4)"
      "saved_text lx4 = saved_text lx3 @ F" "same_fields lx3 lx4" by blast
    from lex_scan_exponent_run [OF wex E t(1,2,4,5) b(2)] obtain lx5 where
      c: "lex_scan_exponent lx4 u2 = Inr (Inr (t, lx5))" "got t rest e (stream lx5)"
      "saved_text lx5 = saved_text lx4 @ E" "same_fields lx4 lx5" by blast
    have whole: "saved_text lx5 = literal n @ [t]"
    proof -
      have "saved_text lx5 = sign_text neg @ ip @ (c3 # F @ E)"
        using a(3) b(3) c(3) by simp
      also have "\<dots> = sign_text neg @ ip @ fraction_text fr @ exponent_text ex @ [t]"
        using full by simp
      finally show ?thesis using n by simp
    qed
    from lex_unget_unsave_ascii [OF c(2) t(1) whole] obtain lx6 where
      d: "lex_unget_unsave lx5 t = Inr lx6" "saved_text lx6 = literal n"
      "same_fields lx5 lx6" "src (stream lx6) = File rest e" by auto
    from a(1) b(1) c(1) d c3r strtod_end_literal [OF wf] c_str_literal_number [OF wf]
    have "lex_scan_number lx c = Inr (lx6\<lparr>token := TOKEN_REAL, val := VReal (Strtod (literal n))\<rparr>)"
      by (auto simp: lex_scan_number_def lx0_def [symmetric] c_assert_def strtod_def)
    with d a(4) b(4) c(4) n False show ?thesis
      by (auto simp: same_fields_def lx0_def)
  qed
qed

text \<open>A byte that ends a number, and a lexer that has just read the first byte \<open>c\<close> of
  a number from a file.\<close>

definition terminator :: "char \<Rightarrow> bool" where
  "terminator t = (ascii t \<and> \<not> isdigit t \<and> t \<noteq> CHR ''.'' \<and> t \<noteq> CHR ''e'' \<and> t \<noteq> CHR ''E'')"

definition number_lex :: "bool \<Rightarrow> char \<Rightarrow> char list \<Rightarrow> lex_t" where
  "number_lex nd c input = (lxr (start nd (File input False)))\<lparr>saved_text := [c]\<rparr>"

lemma number_lex_ready:
  "fresh (stream (number_lex nd c input))" "src (stream (number_lex nd c input)) = File input False"
  "saved_text (number_lex nd c input) = [c]"
  by (simp_all add: number_lex_def start_def lex_init_def stream_init_def lex_auto_def fresh_def
        strbuffer_init_def alloc_def empty_heap_def Let_def)

lemma number_examples:
  "(case lex_scan_number (number_lex False CHR ''0'' '']'') CHR ''0'' of
      Inr lx \<Rightarrow> token lx = TOKEN_INTEGER \<and> val lx = VInteger 0 \<and> saved_text lx = ''0''
    | Inl f \<Rightarrow> False)"
  "(case lex_scan_number (number_lex False CHR ''0'' ''1]'') CHR ''0'' of
      Inr lx \<Rightarrow> token lx = TOKEN_INVALID \<and> saved_text lx = ''0''
    | Inl f \<Rightarrow> False)"
  "(case lex_scan_number (number_lex False CHR ''-'' ''0]'') CHR ''-'' of
      Inr lx \<Rightarrow> token lx = TOKEN_INTEGER \<and> val lx = VInteger 0 \<and> saved_text lx = ''-0''
    | Inl f \<Rightarrow> False)"
  "(case lex_scan_number (number_lex False CHR ''1'' ''.5e10]'') CHR ''1'' of
      Inr lx \<Rightarrow> token lx = TOKEN_REAL \<and> val lx = VReal (Strtod ''1.5e10'') \<and> saved_text lx = ''1.5e10''
    | Inl f \<Rightarrow> False)"
  by code_simp+

lemma big_values:
  "word_of_int (max LONG_MIN (min LONG_MAX (integer_value False ''4294967297''))) = (1 :: 32 word)"
  "word_of_int (max LONG_MIN (min LONG_MAX (integer_value False ''99999999999999999999''))) = (- 1 :: 32 word)"
  "word_of_int (max LONG_MIN (min LONG_MAX (integer_value True ''2147483649''))) = (2147483647 :: 32 word)"
  by code_simp+

text \<open>
  For every well-formed literal read from a file and followed by a byte that ends it,
  \<^verbatim>\<open>lex_scan_number\<close> returns, the saved text is the literal, and the token is INTEGER
  exactly when the literal has neither a fraction nor an exponent, REAL otherwise.
\<close>

lemma number_token_kind:
  assumes "wf_number n" and "literal n @ t # rest = c # input" and "terminator t"
    and "fresh (stream lx)" and "src (stream lx) = File input e" and "saved_text lx = [c]"
  shows "\<exists>lx'. lex_scan_number lx c = Inr lx' \<and> saved_text lx' = literal n \<and>
           (token lx' = TOKEN_INTEGER \<longleftrightarrow> fraction n = None \<and> exponent n = None) \<and>
           (token lx' = TOKEN_REAL \<longleftrightarrow> fraction n \<noteq> None \<or> exponent n \<noteq> None)"
proof -
  from assms(3) have t: "ascii t" "\<not> isdigit t" "t \<noteq> CHR ''.''" "t \<noteq> CHR ''e''" "t \<noteq> CHR ''E''"
    by (simp_all add: terminator_def)
  from lex_scan_number_literal [OF assms(1,2) t assms(4,5,6)] obtain lx' where
    "lex_scan_number lx c = Inr lx'" "saved_text lx' = literal n"
    "if fraction n = None \<and> exponent n = None
     then token lx' = TOKEN_INTEGER \<and>
          val lx' = VInteger (word_of_int (max LONG_MIN (min LONG_MAX
                      (integer_value (negative n) (int_digits n)))))
     else token lx' = TOKEN_REAL \<and> val lx' = VReal (Strtod (literal n))"
    by blast
  then show ?thesis
    by (intro exI [of _ lx']) (auto simp: TOKEN_INTEGER_def TOKEN_REAL_def split: if_splits)
qed

text \<open>
  C5: the number scanner enforces the grammar of JSON numbers: \<^verbatim>\<open>0\<close> gives an INTEGER
  token with value 0, \<^verbatim>\<open>01\<close> is rejected, \<^verbatim>\<open>-0\<close> is a zero, \<^verbatim>\<open>1.5e10\<close> gives a REAL token,
  and a token is INTEGER exactly when the literal has neither a fraction nor an
  exponent. The four examples are as stated (\<open>number_examples\<close>) and so is the kind of
  the token of every well-formed literal (\<open>number_token_kind\<close>), but the grammar is not
  enforced: lines 285 to 299 read the byte behind \<^verbatim>\<open>-\<close> and never test that it is a
  digit. The text \<^verbatim>\<open>-.5e3\<close>, which has no integer part, is a REAL token and the document
  \<^verbatim>\<open>[-.5e3]\<close> parses, in both builds; for \<^verbatim>\<open>[-x]\<close> the empty run of digits reaches \<^verbatim>\<open>strtol\<close>,
  the \<^verbatim>\<open>assert\<close> on its end pointer fails, and under \<^verbatim>\<open>NDEBUG\<close> the document parses to an
  array with the integer 0.
\<close>

theorem number_without_digits_accepted:
  "json_loadf False 160 2 empty_heap (File ''[-.5e3]'' False) (Some blank_error) =
     Inr (Some \<lparr>tree = JArray [JReal (Strtod ''-.5e3'')], refcount = 1\<rparr>,
          \<lparr>outcomes = [], blocks = 0, nodes = 2\<rparr>, Some blank_error)
   \<and> json_loadf True 160 2 empty_heap (File ''[-.5e3]'' False) (Some blank_error) =
     Inr (Some \<lparr>tree = JArray [JReal (Strtod ''-.5e3'')], refcount = 1\<rparr>,
          \<lparr>outcomes = [], blocks = 0, nodes = 2\<rparr>, Some blank_error)
   \<and> json_loadf False 160 2 empty_heap (File ''[-x]'' False) (Some blank_error) = Inl AssertFail
   \<and> json_loadf True 160 2 empty_heap (File ''[-x]'' False) (Some blank_error) =
     Inr (Some \<lparr>tree = JArray [JInteger 0], refcount = 1\<rparr>,
          \<lparr>outcomes = [], blocks = 0, nodes = 2\<rparr>, Some blank_error)"
  by code_simp

text \<open>A leading zero is rejected, as the claim says: the digit behind it is pushed back
  and the token is INVALID.\<close>

lemma document_with_leading_zero_fails:
  "json_loadf False 160 2 empty_heap (File ''[01]'' False) (Some blank_error) =
     Inr (None, empty_heap,
          Some \<lparr>error_line = 1, error_text = ''invalid token near '' @ [sq] @ ''0'' @ [sq]\<rparr>)"
  by code_simp

text \<open>
  C10: the value of an INTEGER token is a C \<^verbatim>\<open>int\<close> that receives the result of \<^verbatim>\<open>strtol\<close>
  with no check of the range: a literal of any size gives a successful INTEGER token,
  whose value is the number clamped to the range of \<^verbatim>\<open>long\<close> and then cut to 32 bits.
\<close>

theorem integer_payload_clamped:
  assumes "digits ip" and "hd ip \<noteq> CHR ''0'' \<or> ip = ''0''"
    and "sign_text neg @ ip @ t # rest = c # input" and "terminator t"
    and "fresh (stream lx)" and "src (stream lx) = File input e" and "saved_text lx = [c]"
  shows "\<exists>lx'. lex_scan_number lx c = Inr lx' \<and> token lx' = TOKEN_INTEGER \<and>
           val lx' = VInteger (word_of_int (max LONG_MIN (min LONG_MAX (integer_value neg ip))))"
proof -
  from assms(4) have t: "ascii t" "\<not> isdigit t" "t \<noteq> CHR ''.''" "t \<noteq> CHR ''e''" "t \<noteq> CHR ''E''"
    by (simp_all add: terminator_def)
  have wf: "wf_number (Number neg ip None None)" using assms(1,2) by simp
  have lit: "literal (Number neg ip None None) @ t # rest = c # input"
    using assms(3) by (simp add: fraction_text_def)
  from lex_scan_number_literal [OF wf lit t assms(5,6,7)] show ?thesis
    by auto
qed

theorem integer_payload_clamped_witness:
  "(\<exists>lx'. lex_scan_number (number_lex False CHR ''4'' ''294967297]'') CHR ''4'' = Inr lx' \<and>
       token lx' = TOKEN_INTEGER \<and> val lx' = VInteger 1)
   \<and> (\<exists>lx'. lex_scan_number (number_lex False CHR ''9'' ''9999999999999999999]'') CHR ''9'' = Inr lx' \<and>
       token lx' = TOKEN_INTEGER \<and> val lx' = VInteger (- 1))
   \<and> (\<exists>lx'. lex_scan_number (number_lex False CHR ''-'' ''2147483649]'') CHR ''-'' = Inr lx' \<and>
       token lx' = TOKEN_INTEGER \<and> val lx' = VInteger 2147483647)"
proof -
  have t: "terminator CHR '']''"
    by (simp add: terminator_def ascii_def isdigit_def in_range_def)
  have d1: "digits ''4294967297''" and d2: "digits ''99999999999999999999''" and d3: "digits ''2147483649''"
    by (simp_all add: digits_def isdigit_def in_range_def)
  have h1: "hd ''4294967297'' \<noteq> CHR ''0'' \<or> ''4294967297'' = ''0''"
    and h2: "hd ''99999999999999999999'' \<noteq> CHR ''0'' \<or> ''99999999999999999999'' = ''0''"
    and h3: "hd ''2147483649'' \<noteq> CHR ''0'' \<or> ''2147483649'' = ''0''"
    by simp_all
  have l1: "sign_text False @ ''4294967297'' @ CHR '']'' # [] = CHR ''4'' # ''294967297]''"
    and l2: "sign_text False @ ''99999999999999999999'' @ CHR '']'' # [] = CHR ''9'' # ''9999999999999999999]''"
    and l3: "sign_text True @ ''2147483649'' @ CHR '']'' # [] = CHR ''-'' # ''2147483649]''"
    by (simp_all add: sign_text_def)
  from integer_payload_clamped [OF d1 h1 l1 t number_lex_ready]
       integer_payload_clamped [OF d2 h2 l2 t number_lex_ready]
       integer_payload_clamped [OF d3 h3 l3 t number_lex_ready]
  show ?thesis by (simp only: big_values) 
qed

lemma document_with_big_integers:
  "json_loadf False 160 4 empty_heap (File ''[4294967297, 99999999999999999999, -2147483649]'' False)
     (Some blank_error) =
   Inr (Some \<lparr>tree = JArray [JInteger 1, JInteger (- 1), JInteger 2147483647], refcount = 1\<rparr>,
        \<lparr>outcomes = [], blocks = 0, nodes = 4\<rparr>, Some blank_error)"
  by code_simp

section \<open>Objects with repeated keys\<close>


























































text \<open>The heap after the document of the claim holds two nodes, the object and its
  member; the node of the first value was released when it was overwritten.\<close>

lemma document_with_repeated_key:
  "json_loadf False 160 3 empty_heap
      (File ([CHR ''{'', dq, CHR ''a'', dq] @ '':1,'' @ [dq, CHR ''a'', dq] @ '':2}'') False)
      (Some blank_error) =
     Inr (Some \<lparr>tree = JObject [(''a'', JInteger 2)], refcount = 1\<rparr>,
          \<lparr>outcomes = [], blocks = 0, nodes = 2\<rparr>, Some blank_error)"
  by code_simp


end
